theory Spec2Isabelle
  imports Complex_Main
begin

section \<open>Server Monitor API: a shallow embedding of \<^verbatim>\<open>server-monitor-api/main.py\<close>\<close>

subsection \<open>Python strings and exceptions\<close>

text \<open>
  A Python \<^verbatim>\<open>str\<close> is a sequence of Unicode code points, so it is modelled as a list of
  naturals; \<open>str\<close> turns an ASCII literal into such a list.
\<close>

type_synonym py_str = "nat list"

definition str :: "string \<Rightarrow> py_str" where
  "str s = map of_char s"

text \<open>
  The exceptions the program can see. \<open>PermissionError\<close> is what \<^verbatim>\<open>_require_auth\<close> raises and
  what an OS query raises on access denial; \<open>OverflowError\<close> is raised by \<^verbatim>\<open>float(n)\<close>;
  \<open>OtherError\<close> stands for every other subclass of \<^verbatim>\<open>Exception\<close>. Each carries \<^verbatim>\<open>str(e)\<close>.
\<close>

datatype py_exn = PermissionError py_str | OverflowError py_str | OtherError py_str

fun exn_str :: "py_exn \<Rightarrow> py_str" where
  "exn_str (PermissionError msg) = msg"
| "exn_str (OverflowError msg) = msg"
| "exn_str (OtherError msg) = msg"

text \<open>
  \<^verbatim>\<open>str.isspace\<close> on one code point: the code points CPython's \<^verbatim>\<open>_PyUnicode_IsWhitespace\<close>
  accepts.
\<close>

definition isspace :: "nat \<Rightarrow> bool" where
  "isspace c = ((0x09 \<le> c \<and> c \<le> 0x0D) \<or> (0x1C \<le> c \<and> c \<le> 0x20) \<or> c = 0x85 \<or> c = 0xA0
      \<or> c = 0x1680 \<or> (0x2000 \<le> c \<and> c \<le> 0x200A) \<or> c = 0x2028 \<or> c = 0x2029
      \<or> c = 0x202F \<or> c = 0x205F \<or> c = 0x3000)"

definition lstrip :: "py_str \<Rightarrow> py_str" where
  "lstrip s = dropWhile isspace s"

definition rstrip :: "py_str \<Rightarrow> py_str" where
  "rstrip s = rev (dropWhile isspace (rev s))"

definition strip :: "py_str \<Rightarrow> py_str" where
  "strip s = rstrip (lstrip s)"

definition startswith :: "py_str \<Rightarrow> py_str \<Rightarrow> bool" where
  "startswith s p = (take (length p) s = p)"

definition removeprefix :: "py_str \<Rightarrow> py_str \<Rightarrow> py_str" where
  "removeprefix s p = (if startswith s p then drop (length p) s else s)"

subsection \<open>\<^verbatim>\<open>_require_auth\<close>\<close>

text \<open>
  \<^verbatim>\<open>MONITOR_TOKEN = os.getenv("MONITOR_TOKEN")\<close> is read once at start-up; it is a parameter
  here. \<^verbatim>\<open>not x\<close> holds for \<^verbatim>\<open>None\<close> and for the empty string. Returning normally is
  \<open>Inr ()\<close>, raising is \<open>Inl\<close>.
\<close>

definition require_auth :: "py_str option \<Rightarrow> py_str option \<Rightarrow> py_exn + unit" where
  "require_auth MONITOR_TOKEN authorization =
     (case MONITOR_TOKEN of
        None \<Rightarrow> Inr ()
      | Some secret \<Rightarrow>
          if secret = [] then Inr ()
          else (case authorization of
                  None \<Rightarrow> Inl (PermissionError (str ''Missing Authorization Bearer token''))
                | Some a \<Rightarrow>
                    if a = [] \<or> \<not> startswith a (str ''Bearer '')
                    then Inl (PermissionError (str ''Missing Authorization Bearer token''))
                    else let token = strip (removeprefix a (str ''Bearer ''))
                         in if token \<noteq> secret
                            then Inl (PermissionError (str ''Invalid token''))
                            else Inr ()))"

subsection \<open>\<^verbatim>\<open>_bytes_to_human\<close>\<close>

text \<open>
  \<^verbatim>\<open>float(n)\<close> gives the double nearest to the integer \<open>n\<close>, ties to even, and raises
  \<^verbatim>\<open>OverflowError\<close> when that would not be finite. A double has 53 significant bits, so an
  integer of more bits is rounded at the bit \<open>bit_length n - 53\<close>. The value of a double is a
  rational number, and \<open>rat\<close> carries it exactly.
\<close>

fun bit_length :: "nat \<Rightarrow> nat" where
  "bit_length n = (if n = 0 then 0 else Suc (bit_length (n div 2)))"

definition round_half_even :: "rat \<Rightarrow> int" where
  "round_half_even x =
     (let f = \<lfloor>x\<rfloor>; d = x - of_int f
      in if d < 1 / 2 then f else if 1 / 2 < d then f + 1 else if even f then f else f + 1)"

definition nearest_double :: "nat \<Rightarrow> rat" where
  "nearest_double a =
     (let e = bit_length a - 53
      in of_int (round_half_even (of_nat a / 2 ^ e)) * 2 ^ e)"

definition py_float :: "int \<Rightarrow> py_exn + rat" where
  "py_float n =
     (let v = nearest_double (nat \<bar>n\<bar>)
      in if 2 ^ 1024 \<le> v then Inl (OverflowError (str ''int too large to convert to float''))
         else Inr (if n < 0 then - v else v))"

definition units :: "py_str list" where
  "units = [str ''B'', str ''KB'', str ''MB'', str ''GB'', str ''TB'', str ''PB'']"

text \<open>
  The \<^verbatim>\<open>while\<close> loop. It divides only a double that is at least 1024, and dividing such a
  double by \<open>1024 = 2 ^ 10\<close> changes its exponent alone, so the quotient is exact.
\<close>

function human_loop :: "rat \<Rightarrow> nat \<Rightarrow> rat \<times> nat" where
  "human_loop val i =
     (if 1024 \<le> val \<and> i < length units - 1 then human_loop (val / 1024) (i + 1) else (val, i))"
  by pat_completeness auto
termination
  by (relation "measure (\<lambda>(val, i). length units - 1 - i)") auto

text \<open>Decimal digits, as code points.\<close>

definition digit :: "nat \<Rightarrow> nat" where
  "digit d = 48 + d"

fun dec :: "nat \<Rightarrow> py_str" where
  "dec n = (if n < 10 then [digit n] else dec (n div 10) @ [digit (n mod 10)])"

text \<open>
  The format \<^verbatim>\<open>{val:.1f}\<close>: the exact value of the double, correctly rounded to one
  fractional digit, ties to even. \<open>tenths\<close> is that decimal number, times ten.
\<close>

definition tenths :: "rat \<Rightarrow> nat" where
  "tenths x = nat (round_half_even (\<bar>x\<bar> * 10))"

definition format_1f :: "rat \<Rightarrow> py_str" where
  "format_1f x =
     (if x < 0 then str ''-'' else []) @ dec (tenths x div 10) @ str ''.'' @ [digit (tenths x mod 10)]"

definition human_parts :: "int \<Rightarrow> py_exn + rat \<times> nat" where
  "human_parts n = (case py_float n of Inl e \<Rightarrow> Inl e | Inr val \<Rightarrow> Inr (human_loop val 0))"

definition bytes_to_human :: "int \<Rightarrow> py_exn + py_str" where
  "bytes_to_human n =
     (case human_parts n of
        Inl e \<Rightarrow> Inl e
      | Inr (val, i) \<Rightarrow> Inr (format_1f val @ units ! i))"

subsection \<open>The response models\<close>

record DiskUsageItem =
  mount :: py_str
  total_bytes :: int
  used_bytes :: int
  free_bytes :: int
  percent :: real

record NetIO =
  bytes_sent :: int
  bytes_recv :: int

record Metrics =
  cpu_percent :: real
  load_avg :: "real list"
  mem_percent :: real
  mem_total_bytes :: int
  mem_used_bytes :: int
  mem_available_bytes :: int
  disk :: "DiskUsageItem list"
  net_io :: NetIO
  uptime_seconds :: int
  hostname :: py_str

record ApiResponse =
  ok :: bool
  ts :: py_str
  metrics :: "Metrics option"
  error :: "py_str option"

subsection \<open>The operating system, as the handler sees it\<close>

text \<open>
  What \<^verbatim>\<open>psutil\<close>, \<^verbatim>\<open>os\<close>, \<^verbatim>\<open>socket\<close> and \<^verbatim>\<open>time\<close> return during one request. A query
  either returns a value or raises a subclass of \<^verbatim>\<open>Exception\<close>. \<^verbatim>\<open>psutil.disk_usage\<close>
  answers the same for the same path throughout the request. Floats that the handler only
  passes on, or subtracts once for the uptime, are reals.
\<close>

record sdiskpart =
  device :: py_str
  mountpoint :: py_str
  fstype :: py_str
  opts :: py_str

record sdiskusage =
  du_total :: int
  du_used :: int
  du_free :: int
  du_percent :: real

record svmem =
  vm_total :: int
  vm_available :: int
  vm_percent :: real
  vm_used :: int

record snetio =
  nio_bytes_sent :: int
  nio_bytes_recv :: int

record struct_time =
  tm_year :: nat
  tm_mon :: nat
  tm_mday :: nat
  tm_hour :: nat
  tm_min :: nat
  tm_sec :: nat

record os_env =
  psutil_cpu_percent :: "py_exn + real"
  os_getloadavg :: "py_exn + real \<times> real \<times> real"
  psutil_virtual_memory :: "py_exn + svmem"
  psutil_disk_partitions :: "py_exn + sdiskpart list"
  psutil_disk_usage :: "py_str \<Rightarrow> py_exn + sdiskusage"
  psutil_net_io_counters :: "py_exn + snetio"
  time_time :: real
  psutil_boot_time :: "py_exn + real"
  socket_gethostname :: "py_exn + py_str"
  time_gmtime :: struct_time

subsection \<open>The timestamp\<close>

text \<open>
  \<^verbatim>\<open>time.strftime\<close> for the directives the program uses: \<^verbatim>\<open>%Y\<close> is the year in decimal,
  the others are two digits, zero-padded. Every other character is copied.
\<close>

definition pad2 :: "nat \<Rightarrow> py_str" where
  "pad2 n = (if n < 10 then digit 0 # dec n else dec n)"

definition directive :: "char \<Rightarrow> struct_time \<Rightarrow> py_str" where
  "directive d t =
     (if d = CHR ''Y'' then dec (tm_year t)
      else if d = CHR ''m'' then pad2 (tm_mon t)
      else if d = CHR ''d'' then pad2 (tm_mday t)
      else if d = CHR ''H'' then pad2 (tm_hour t)
      else if d = CHR ''M'' then pad2 (tm_min t)
      else if d = CHR ''S'' then pad2 (tm_sec t)
      else [of_char CHR ''%'', of_char d])"

fun strftime :: "string \<Rightarrow> struct_time \<Rightarrow> py_str" where
  "strftime [] t = []"
| "strftime [c] t = [of_char c]"
| "strftime (c # d # cs) t =
     (if c = CHR ''%'' then directive d t @ strftime cs t else of_char c # strftime (d # cs) t)"

definition timestamp :: "os_env \<Rightarrow> py_str" where
  "timestamp os = strftime ''%Y-%m-%dT%H:%M:%SZ'' (time_gmtime os)"

subsection \<open>The handler of \<^verbatim>\<open>GET /api/metrics\<close>\<close>

definition pseudo_fstypes :: "py_str list" where
  "pseudo_fstypes = [str ''tmpfs'', str ''devtmpfs'', str ''squashfs'']"

definition mk_item :: "py_str \<Rightarrow> sdiskusage \<Rightarrow> DiskUsageItem" where
  "mk_item m du =
     \<lparr>mount = m, total_bytes = du_total du, used_bytes = du_used du,
      free_bytes = du_free du, percent = du_percent du\<rparr>"

text \<open>
  The loop over \<^verbatim>\<open>psutil.disk_partitions(all=False)\<close>, with its two variables
  \<^verbatim>\<open>seen_mounts\<close> and \<^verbatim>\<open>disk_items\<close>. A \<open>PermissionError\<close> of \<^verbatim>\<open>psutil.disk_usage(m)\<close> is
  caught and the partition skipped; any other exception leaves the loop.
\<close>

fun disk_loop ::
  "os_env \<Rightarrow> sdiskpart list \<Rightarrow> py_str set \<Rightarrow> DiskUsageItem list \<Rightarrow> py_exn + DiskUsageItem list"
where
  "disk_loop os [] seen_mounts disk_items = Inr disk_items"
| "disk_loop os (part # parts) seen_mounts disk_items =
     (let m = mountpoint part
      in if m \<in> seen_mounts then disk_loop os parts seen_mounts disk_items
         else if fstype part \<in> set pseudo_fstypes
           then disk_loop os parts (insert m seen_mounts) disk_items
         else (case psutil_disk_usage os m of
                 Inl (PermissionError msg) \<Rightarrow> disk_loop os parts (insert m seen_mounts) disk_items
               | Inl e \<Rightarrow> Inl e
               | Inr du \<Rightarrow>
                   disk_loop os parts (insert m seen_mounts) (disk_items @ [mk_item m du])))"

text \<open>The fallback to \<^verbatim>\<open>"/"\<close> when the loop left \<^verbatim>\<open>disk_items\<close> empty.\<close>

definition disk_fallback :: "os_env \<Rightarrow> DiskUsageItem list \<Rightarrow> py_exn + DiskUsageItem list" where
  "disk_fallback os disk_items =
     (if disk_items = []
      then (case psutil_disk_usage os (str ''/'') of
              Inl e \<Rightarrow> Inl e
            | Inr du \<Rightarrow> Inr (disk_items @ [mk_item (str ''/'') du]))
      else Inr disk_items)"

text \<open>\<^verbatim>\<open>int(x)\<close> of a float truncates towards zero.\<close>

definition py_int :: "real \<Rightarrow> int" where
  "py_int x = (if 0 \<le> x then \<lfloor>x\<rfloor> else \<lceil>x\<rceil>)"

text \<open>
  The body of the \<^verbatim>\<open>try\<close> block after \<^verbatim>\<open>_require_auth\<close>, up to the construction of
  \<^verbatim>\<open>Metrics\<close>, in the order of the source. \<^verbatim>\<open>os.getloadavg()\<close> has its own handler.
\<close>

definition collect :: "os_env \<Rightarrow> py_exn + Metrics" where
  "collect os =
     (case psutil_cpu_percent os of Inl e \<Rightarrow> Inl e | Inr cpu \<Rightarrow>
      let load = (case os_getloadavg os of Inl e \<Rightarrow> (0, 0, 0) | Inr l \<Rightarrow> l) in
      case psutil_virtual_memory os of Inl e \<Rightarrow> Inl e | Inr vm \<Rightarrow>
      case psutil_disk_partitions os of Inl e \<Rightarrow> Inl e | Inr parts \<Rightarrow>
      case disk_loop os parts {} [] of Inl e \<Rightarrow> Inl e | Inr items \<Rightarrow>
      case disk_fallback os items of Inl e \<Rightarrow> Inl e | Inr disk_items \<Rightarrow>
      case psutil_net_io_counters os of Inl e \<Rightarrow> Inl e | Inr net \<Rightarrow>
      case psutil_boot_time os of Inl e \<Rightarrow> Inl e | Inr boot \<Rightarrow>
      case socket_gethostname os of Inl e \<Rightarrow> Inl e | Inr host \<Rightarrow>
      Inr \<lparr>cpu_percent = cpu,
           load_avg = [fst load, fst (snd load), snd (snd load)],
           mem_percent = vm_percent vm,
           mem_total_bytes = vm_total vm,
           mem_used_bytes = vm_used vm,
           mem_available_bytes = vm_available vm,
           disk = disk_items,
           net_io = \<lparr>bytes_sent = nio_bytes_sent net, bytes_recv = nio_bytes_recv net\<rparr>,
           uptime_seconds = py_int (time_time os - boot),
           hostname = host\<rparr>)"

text \<open>
  The two \<^verbatim>\<open>except\<close> clauses, in their order: \<^verbatim>\<open>PermissionError\<close> first, then
  \<^verbatim>\<open>Exception\<close>. The result is the status code of the response and its body.
\<close>

fun on_exception :: "os_env \<Rightarrow> py_exn \<Rightarrow> nat \<times> ApiResponse" where
  "on_exception os (PermissionError msg) =
     (401, \<lparr>ok = False, ts = timestamp os, metrics = None, error = Some msg\<rparr>)"
| "on_exception os e =
     (503, \<lparr>ok = False, ts = timestamp os, metrics = None, error = Some (exn_str e)\<rparr>)"

text \<open>
  The handler \<^verbatim>\<open>metrics\<close> (the name \<open>metrics\<close> is the field of the response here).
\<close>

definition metrics_endpoint :: "py_str option \<Rightarrow> os_env \<Rightarrow> py_str option \<Rightarrow> nat \<times> ApiResponse" where
  "metrics_endpoint MONITOR_TOKEN os authorization =
     (case require_auth MONITOR_TOKEN authorization of
        Inl e \<Rightarrow> on_exception os e
      | Inr u \<Rightarrow>
          (case collect os of
             Inl e \<Rightarrow> on_exception os e
           | Inr m \<Rightarrow> (200, \<lparr>ok = True, ts = timestamp os, metrics = Some m, error = None\<rparr>)))"

subsection \<open>Notions used in the statements\<close>

text \<open>
  Deduplication by mount path, first occurrence winning: the partitions whose mount point is
  neither in \<open>seen\<close> nor reported by an earlier partition of the list.
\<close>

fun first_by_mount :: "py_str set \<Rightarrow> sdiskpart list \<Rightarrow> sdiskpart list" where
  "first_by_mount seen [] = []"
| "first_by_mount seen (p # ps) =
     (if mountpoint p \<in> seen then first_by_mount seen ps
      else p # first_by_mount (insert (mountpoint p) seen) ps)"

definition usage_denied :: "os_env \<Rightarrow> py_str \<Rightarrow> bool" where
  "usage_denied os m =
     (case psutil_disk_usage os m of Inl (PermissionError msg) \<Rightarrow> True | _ \<Rightarrow> False)"

definition listed :: "os_env \<Rightarrow> sdiskpart \<Rightarrow> bool" where
  "listed os p = (fstype p \<notin> set pseudo_fstypes \<and> \<not> usage_denied os (mountpoint p))"

text \<open>
  The enumeration in the order of the specification's words: exclude the pseudo filesystem
  types, then deduplicate the remainder by mount path, then skip the mounts whose usage
  query is denied. It gives the mount paths of the entries.
\<close>

definition spec_enumerated :: "os_env \<Rightarrow> sdiskpart list \<Rightarrow> py_str list" where
  "spec_enumerated os parts =
     map mountpoint
       (filter (\<lambda>p. \<not> usage_denied os (mountpoint p))
         (first_by_mount {} (filter (\<lambda>p. fstype p \<notin> set pseudo_fstypes) parts)))"

text \<open>
  The shape \<^verbatim>\<open>YYYY-MM-DDTHH:MM:SSZ\<close>: ISO 8601 with second precision and the suffix
  \<^verbatim>\<open>Z\<close>.
\<close>

definition isdigit :: "nat \<Rightarrow> bool" where
  "isdigit c = (48 \<le> c \<and> c \<le> 57)"

definition iso8601_utc_seconds :: "py_str \<Rightarrow> bool" where
  "iso8601_utc_seconds s =
     (length s = 20
      \<and> list_all isdigit (take 4 s) \<and> take 1 (drop 4 s) = str ''-''
      \<and> list_all isdigit (take 2 (drop 5 s)) \<and> take 1 (drop 7 s) = str ''-''
      \<and> list_all isdigit (take 2 (drop 8 s)) \<and> take 1 (drop 10 s) = str ''T''
      \<and> list_all isdigit (take 2 (drop 11 s)) \<and> take 1 (drop 13 s) = str '':''
      \<and> list_all isdigit (take 2 (drop 14 s)) \<and> take 1 (drop 16 s) = str '':''
      \<and> list_all isdigit (take 2 (drop 17 s)) \<and> drop 19 s = str ''Z'')"

text \<open>
  Reading an output of \<^verbatim>\<open>_bytes_to_human\<close> back: its numeral is the longest prefix of
  digits, sign and point, its unit is the rest; \<open>read_1f\<close> is the number that a numeral
  with one fractional digit denotes.
\<close>

definition is_numeric :: "nat \<Rightarrow> bool" where
  "is_numeric c = (isdigit c \<or> c = 45 \<or> c = 46)"

definition numeric_part :: "py_str \<Rightarrow> py_str" where
  "numeric_part s = takeWhile is_numeric s"

definition unit_part :: "py_str \<Rightarrow> py_str" where
  "unit_part s = dropWhile is_numeric s"

definition read_dec :: "py_str \<Rightarrow> nat" where
  "read_dec s = foldl (\<lambda>a c. 10 * a + (c - 48)) 0 s"

definition read_1f :: "py_str \<Rightarrow> rat" where
  "read_1f s =
     (let negative = (take 1 s = str ''-'');
          body = (if negative then drop 1 s else s);
          magnitude = of_nat (read_dec (butlast (butlast body))) + of_nat (last body - 48) / 10
      in if negative then - magnitude else magnitude)"

text \<open>
  The ranges of the fields of a \<^verbatim>\<open>struct_time\<close> that \<^verbatim>\<open>time.gmtime()\<close> returns, for a clock
  in a year of four digits.
\<close>

definition gmtime_range :: "struct_time \<Rightarrow> bool" where
  "gmtime_range t =
     (1000 \<le> tm_year t \<and> tm_year t \<le> 9999 \<and> 1 \<le> tm_mon t \<and> tm_mon t \<le> 12
      \<and> 1 \<le> tm_mday t \<and> tm_mday t \<le> 31 \<and> tm_hour t \<le> 23 \<and> tm_min t \<le> 59
      \<and> tm_sec t \<le> 61)"

subsection \<open>Example environments\<close>

definition part :: "string \<Rightarrow> string \<Rightarrow> string \<Rightarrow> sdiskpart" where
  "part dev m fs = \<lparr>device = str dev, mountpoint = str m, fstype = str fs, opts = str ''rw''\<rparr>"

definition example_usage :: sdiskusage where
  "example_usage = \<lparr>du_total = 1000, du_used = 400, du_free = 600, du_percent = 40\<rparr>"

definition example_os :: os_env where
  "example_os =
     \<lparr>psutil_cpu_percent = Inr 12,
      os_getloadavg = Inr (1, 2, 3),
      psutil_virtual_memory =
        Inr \<lparr>vm_total = 8000, vm_available = 5000, vm_percent = 37, vm_used = 3000\<rparr>,
      psutil_disk_partitions = Inr [part ''/dev/sda1'' ''/'' ''ext4''],
      psutil_disk_usage = (\<lambda>m. Inr example_usage),
      psutil_net_io_counters = Inr \<lparr>nio_bytes_sent = 10, nio_bytes_recv = 20\<rparr>,
      time_time = 1000,
      psutil_boot_time = Inr 400,
      socket_gethostname = Inr (str ''host''),
      time_gmtime =
        \<lparr>tm_year = 2026, tm_mon = 11, tm_mday = 4, tm_hour = 9, tm_min = 5, tm_sec = 0\<rparr>\<rparr>"

definition squashfs_root_os :: os_env where
  "squashfs_root_os =
     example_os\<lparr>psutil_disk_partitions := Inr [part ''/dev/root'' ''/'' ''squashfs'']\<rparr>"

definition stacked_parts :: "sdiskpart list" where
  "stacked_parts = [part ''/dev/loop0'' ''/mnt'' ''squashfs'', part ''/dev/sdb1'' ''/mnt'' ''ext4'']"

definition stacked_os :: os_env where
  "stacked_os = example_os\<lparr>psutil_disk_partitions := Inr stacked_parts\<rparr>"

definition repeated_parts :: "sdiskpart list" where
  "repeated_parts =
     [part ''/dev/sda1'' ''/'' ''ext4'', part ''tmpfs'' ''/run'' ''tmpfs'',
      part ''/dev/sda1'' ''/'' ''ext4'', part ''/dev/sdb1'' ''/data'' ''ext4'']"

definition repeated_os :: os_env where
  "repeated_os = example_os\<lparr>psutil_disk_partitions := Inr repeated_parts\<rparr>"

definition no_loadavg_os :: os_env where
  "no_loadavg_os = example_os\<lparr>os_getloadavg := Inl (OtherError (str ''no getloadavg''))\<rparr>"

definition proc_denied_os :: os_env where
  "proc_denied_os =
     example_os\<lparr>psutil_cpu_percent := Inl (PermissionError (str ''Permission denied: /proc/stat''))\<rparr>"

section \<open>The access guard\<close>

subsection \<open>Strings\<close>

lemma str_Bearer: "str ''Bearer '' = [66, 101, 97, 114, 101, 114, 32]"
  by (simp add: str_def)

lemma startswith_iff: "startswith s p \<longleftrightarrow> (\<exists>r. s = p @ r)"
proof
  assume "startswith s p"
  then have "s = p @ drop (length p) s"
    unfolding startswith_def by (metis append_take_drop_id)
  then show "\<exists>r. s = p @ r" ..
next
  assume "\<exists>r. s = p @ r"
  then show "startswith s p"
    unfolding startswith_def by auto
qed

lemma removeprefix_append: "removeprefix (p @ r) p = r"
  by (simp add: removeprefix_def startswith_def)

text \<open>
  What \<open>strip\<close> computes: the input is whitespace, the result, whitespace, and the result
  neither starts nor ends with whitespace.
\<close>

lemma rstrip_decompose: "s = rstrip s @ rev (takeWhile isspace (rev s))"
proof -
  have "rev (takeWhile isspace (rev s) @ dropWhile isspace (rev s)) = rev (rev s)"
    by (simp only: takeWhile_dropWhile_id)
  then show ?thesis by (simp only: rev_append rev_rev_ident rstrip_def)
qed

lemma strip_decompose:
  "\<exists>l r. s = l @ strip s @ r \<and> (\<forall>c\<in>set l. isspace c) \<and> (\<forall>c\<in>set r. isspace c)"
proof -
  let ?l = "takeWhile isspace s"
  let ?r = "rev (takeWhile isspace (rev (lstrip s)))"
  have "lstrip s = strip s @ ?r"
    unfolding strip_def by (rule rstrip_decompose)
  moreover have "s = ?l @ lstrip s" by (simp add: lstrip_def)
  ultimately have "s = ?l @ strip s @ ?r" by simp
  moreover have "\<forall>c\<in>set ?l. isspace c" by (auto dest: set_takeWhileD)
  moreover have "\<forall>c\<in>set ?r. isspace c" by (auto dest: set_takeWhileD)
  ultimately show ?thesis by blast
qed

lemma strip_no_outer_space:
  assumes ne: "strip s \<noteq> []"
  shows "\<not> isspace (hd (strip s)) \<and> \<not> isspace (last (strip s))"
proof -
  let ?m = "lstrip s"
  have st: "strip s = rev (dropWhile isspace (rev ?m))"
    by (simp add: strip_def rstrip_def)
  with ne have d: "dropWhile isspace (rev ?m) \<noteq> []" by simp
  then have "\<not> isspace (hd (dropWhile isspace (rev ?m)))" by (rule hd_dropWhile)
  with d st have l: "\<not> isspace (last (strip s))" by (simp add: last_rev)
  have dec: "?m = strip s @ rev (takeWhile isspace (rev ?m))"
    unfolding strip_def by (rule rstrip_decompose)
  with ne have "?m \<noteq> []" by (metis append_is_Nil_conv)
  then have mne: "dropWhile isspace s \<noteq> []" unfolding lstrip_def .
  then have "\<not> isspace (hd (dropWhile isspace s))" by (rule hd_dropWhile)
  then have "\<not> isspace (hd ?m)" by (simp add: lstrip_def)
  moreover from ne dec have "hd ?m = hd (strip s)" by (metis hd_append2)
  ultimately show ?thesis using l by simp
qed

subsection \<open>The check of the credential\<close>

text \<open>
  C3. When the configured secret is absent or the empty string, the check succeeds for every
  provided header value, the absent one included.
\<close>

theorem require_auth_disabled:
  "MONITOR_TOKEN = None \<or> MONITOR_TOKEN = Some [] \<Longrightarrow> require_auth MONITOR_TOKEN authorization = Inr ()"
  by (auto simp: require_auth_def)

theorem require_auth_disabled_witness:
  "require_auth None None = Inr ()
   \<and> require_auth (Some []) (Some (str ''Basic abc123'')) = Inr ()"
  using require_auth_disabled [of None None]
    require_auth_disabled [of "Some []" "Some (str ''Basic abc123'')"]
  by simp

text \<open>
  C1. With a non-empty configured secret, the check succeeds exactly when the header is
  present, begins with the prefix \<^verbatim>\<open>"Bearer "\<close> and the remainder, stripped of surrounding
  whitespace, equals the secret; in every other case it raises \<open>PermissionError\<close>.
\<close>

theorem require_auth_iff:
  assumes "secret \<noteq> []"
  shows "(require_auth (Some secret) authorization = Inr ()
            \<longleftrightarrow> (\<exists>rest. authorization = Some (str ''Bearer '' @ rest) \<and> strip rest = secret))
         \<and> (require_auth (Some secret) authorization \<noteq> Inr ()
            \<longrightarrow> (\<exists>msg. require_auth (Some secret) authorization = Inl (PermissionError msg)))"
proof (cases authorization)
  case None
  with assms show ?thesis by (simp add: require_auth_def)
next
  case (Some a)
  show ?thesis
  proof (cases "startswith a (str ''Bearer '')")
    case False
    then have "\<not> (\<exists>rest. a = str ''Bearer '' @ rest)" by (simp add: startswith_iff)
    with assms Some False show ?thesis by (simp add: require_auth_def)
  next
    case True
    then obtain r where a: "a = str ''Bearer '' @ r" by (auto simp: startswith_iff)
    then have "a \<noteq> []" by (simp add: str_Bearer)
    with assms Some True a show ?thesis
      by (auto simp: require_auth_def removeprefix_append Let_def)
  qed
qed

theorem require_auth_iff_witness:
  "str ''abc123'' \<noteq> []
   \<and> require_auth (Some (str ''abc123'')) (Some (str ''Bearer '' @ str '' abc123 '')) = Inr ()"
proof -
  have ne: "str ''abc123'' \<noteq> []" by (simp add: str_def)
  have "strip (str '' abc123 '') = str ''abc123''"
    by (simp add: strip_def lstrip_def rstrip_def str_def isspace_def)
  with require_auth_iff [OF ne, of "Some (str ''Bearer '' @ str '' abc123 '')"] ne
  show ?thesis by blast
qed

section \<open>The snapshot collector and the handler\<close>

subsection \<open>The loop over the partitions\<close>


lemma first_by_mount_mounts:
  "mountpoint ` set (first_by_mount seen ps) \<inter> seen = {} \<and> distinct (map mountpoint (first_by_mount seen ps))"
proof (induction ps arbitrary: seen)
  case Nil
  then show ?case by simp
next
  case (Cons p ps)
  show ?case
  proof (cases "mountpoint p \<in> seen")
    case True
    with Cons.IH [of seen] show ?thesis by simp
  next
    case False
    with Cons.IH [of "insert (mountpoint p) seen"] show ?thesis by auto
  qed
qed

lemma disk_loop_mounts:
  "disk_loop os ps seen items = Inr out \<Longrightarrow>
   map mount out = map mount items @ map mountpoint (filter (listed os) (first_by_mount seen ps))"
proof (induction ps arbitrary: seen items)
  case Nil
  then show ?case by simp
next
  case (Cons p ps)
  show ?case
  proof (cases "mountpoint p \<in> seen")
    case True
    with Cons show ?thesis by (simp add: Let_def)
  next
    case unseen: False
    show ?thesis
    proof (cases "fstype p \<in> set pseudo_fstypes")
      case True
      with unseen Cons.prems have "disk_loop os ps (insert (mountpoint p) seen) items = Inr out"
        by (simp add: Let_def)
      from Cons.IH [OF this] unseen True show ?thesis by (simp add: listed_def)
    next
      case real: False
      show ?thesis
      proof (cases "psutil_disk_usage os (mountpoint p)")
        case (Inr du)
        with unseen real Cons.prems
        have "disk_loop os ps (insert (mountpoint p) seen) (items @ [mk_item (mountpoint p) du]) = Inr out"
          by (simp add: Let_def)
        from Cons.IH [OF this] unseen real Inr show ?thesis
          by (simp add: listed_def usage_denied_def mk_item_def)
      next
        case (Inl e)
        show ?thesis
        proof (cases e)
          case (PermissionError msg)
          with Inl unseen real Cons.prems
          have "disk_loop os ps (insert (mountpoint p) seen) items = Inr out"
            by (simp add: Let_def)
          from Cons.IH [OF this] unseen real Inl PermissionError show ?thesis
            by (simp add: listed_def usage_denied_def)
        next
          case (OverflowError msg)
          with Inl unseen real Cons.prems show ?thesis by (simp add: Let_def)
        next
          case (OtherError msg)
          with Inl unseen real Cons.prems show ?thesis by (simp add: Let_def)
        qed
      qed
    qed
  qed
qed

lemma collect_InrD:
  assumes "collect os = Inr m"
  shows "\<exists>parts items. psutil_disk_partitions os = Inr parts \<and> disk_loop os parts {} [] = Inr items
           \<and> disk_fallback os items = Inr (disk m)"
  using assms by (auto simp: collect_def Let_def split: sum.splits)

lemma disk_fallback_InrD:
  assumes "disk_fallback os items = Inr ds"
  shows "(items \<noteq> [] \<and> ds = items) \<or>
         (items = [] \<and> (\<exists>du. psutil_disk_usage os (str ''/'') = Inr du \<and> ds = [mk_item (str ''/'') du]))"
  using assms by (auto simp: disk_fallback_def split: if_splits sum.splits)


subsection \<open>Timestamp\<close>

lemma dec_small: "n < 10 \<Longrightarrow> dec n = [digit n]"
  by simp

lemma dec_large: "10 \<le> n \<Longrightarrow> dec n = dec (n div 10) @ [digit (n mod 10)]"
  by simp

declare dec.simps [simp del]

lemma isdigit_digit: "d < 10 \<Longrightarrow> isdigit (digit d)"
  by (simp add: isdigit_def digit_def)

lemma dec_digits: "list_all isdigit (dec n)"
proof (induction n rule: dec.induct)
  case (1 n)
  show ?case
  proof (cases "n < 10")
    case True
    then show ?thesis by (simp add: dec_small isdigit_digit)
  next
    case False
    with "1" show ?thesis by (simp add: dec_large isdigit_digit)
  qed
qed

lemma length_dec_2: "10 \<le> n \<Longrightarrow> n < 100 \<Longrightarrow> length (dec n) = 2"
  by (simp add: dec_large dec_small)

lemma length_dec_3: "100 \<le> n \<Longrightarrow> n < 1000 \<Longrightarrow> length (dec n) = 3"
  by (simp add: dec_large [of n] length_dec_2)

lemma length_dec_4: "1000 \<le> n \<Longrightarrow> n < 10000 \<Longrightarrow> length (dec n) = 4"
  by (simp add: dec_large [of n] length_dec_3)

lemma pad2_shape: "n < 100 \<Longrightarrow> length (pad2 n) = 2 \<and> list_all isdigit (pad2 n)"
  by (cases "n < 10") (simp_all add: pad2_def dec_small length_dec_2 dec_digits isdigit_digit)

lemma iso8601_utc_secondsI:
  assumes "length Y = 4" "length M = 2" "length D = 2" "length h = 2" "length mi = 2" "length s = 2"
    and "list_all isdigit Y" "list_all isdigit M" "list_all isdigit D"
    and "list_all isdigit h" "list_all isdigit mi" "list_all isdigit s"
  shows "iso8601_utc_seconds (Y @ 45 # M @ 45 # D @ 84 # h @ 58 # mi @ 58 # s @ [90])"
  using assms by (simp add: iso8601_utc_seconds_def str_def)

lemma timestamp_unfold:
  "timestamp os = (let t = time_gmtime os in
     dec (tm_year t) @ 45 # pad2 (tm_mon t) @ 45 # pad2 (tm_mday t) @ 84 # pad2 (tm_hour t)
       @ 58 # pad2 (tm_min t) @ 58 # pad2 (tm_sec t) @ [90])"
  by (simp add: timestamp_def directive_def Let_def)

lemma timestamp_iso:
  assumes "gmtime_range (time_gmtime os)"
  shows "iso8601_utc_seconds (timestamp os)"
proof -
  let ?t = "time_gmtime os"
  from assms have y: "length (dec (tm_year ?t)) = 4"
    by (intro length_dec_4) (simp_all add: gmtime_range_def)
  from assms have "tm_mon ?t < 100" "tm_mday ?t < 100" "tm_hour ?t < 100" "tm_min ?t < 100"
    "tm_sec ?t < 100"
    by (simp_all add: gmtime_range_def)
  then have p: "length (pad2 (tm_mon ?t)) = 2" "list_all isdigit (pad2 (tm_mon ?t))"
    "length (pad2 (tm_mday ?t)) = 2" "list_all isdigit (pad2 (tm_mday ?t))"
    "length (pad2 (tm_hour ?t)) = 2" "list_all isdigit (pad2 (tm_hour ?t))"
    "length (pad2 (tm_min ?t)) = 2" "list_all isdigit (pad2 (tm_min ?t))"
    "length (pad2 (tm_sec ?t)) = 2" "list_all isdigit (pad2 (tm_sec ?t))"
    by (simp_all add: pad2_shape)
  show ?thesis
    unfolding timestamp_unfold Let_def
    by (rule iso8601_utc_secondsI) (fact y p dec_digits)+
qed

lemma timestamp_example: "timestamp example_os = str ''2026-11-04T09:05:00Z''"
  by (simp add: timestamp_unfold example_os_def pad2_def dec_large dec_small digit_def str_def)

subsection \<open>The handler\<close>

lemma on_exception_shape:
  "\<not> ok (snd (on_exception os e)) \<and> metrics (snd (on_exception os e)) = None
   \<and> error (snd (on_exception os e)) \<noteq> None \<and> ts (snd (on_exception os e)) = timestamp os"
  by (cases e) simp_all

lemma on_exception_status:
  "fst (on_exception os e) = (case e of PermissionError msg \<Rightarrow> 401 | _ \<Rightarrow> 503)"
  by (cases e) simp_all


lemma metrics_endpoint_cases:
  "(\<exists>e. metrics_endpoint T os a = on_exception os e
        \<and> (require_auth T a = Inl e \<or> (require_auth T a = Inr () \<and> collect os = Inl e)))
   \<or> (\<exists>m. require_auth T a = Inr () \<and> collect os = Inr m
        \<and> metrics_endpoint T os a
            = (200, \<lparr>ok = True, ts = timestamp os, metrics = Some m, error = None\<rparr>))"
  by (auto simp: metrics_endpoint_def split: sum.splits)

lemma disk_loop_cong_os:
  "psutil_disk_usage os' = psutil_disk_usage os \<Longrightarrow>
   disk_loop os' ps seen items = disk_loop os ps seen items"
  by (induction ps arbitrary: seen items) (simp_all add: Let_def split: sum.splits py_exn.splits)

lemma collect_example:
  "collect example_os =
     Inr \<lparr>cpu_percent = 12, load_avg = [1, 2, 3], mem_percent = 37, mem_total_bytes = 8000,
          mem_used_bytes = 3000, mem_available_bytes = 5000,
          disk = [mk_item (str ''/'') example_usage],
          net_io = \<lparr>bytes_sent = 10, bytes_recv = 20\<rparr>, uptime_seconds = 600,
          hostname = str ''host''\<rparr>"
  by (simp add: collect_def example_os_def part_def pseudo_fstypes_def str_def Let_def
      disk_fallback_def py_int_def)

lemmas run_defs = collect_def example_os_def part_def pseudo_fstypes_def str_def Let_def
      disk_fallback_def py_int_def mk_item_def example_usage_def

lemma collect_squashfs_root:
  "collect squashfs_root_os =
     Inr \<lparr>cpu_percent = 12, load_avg = [1, 2, 3], mem_percent = 37, mem_total_bytes = 8000,
          mem_used_bytes = 3000, mem_available_bytes = 5000,
          disk = [mk_item (str ''/'') example_usage],
          net_io = \<lparr>bytes_sent = 10, bytes_recv = 20\<rparr>, uptime_seconds = 600,
          hostname = str ''host''\<rparr>"
  by (simp add: squashfs_root_os_def run_defs)

lemma disk_loop_stacked: "disk_loop stacked_os stacked_parts {} [] = Inr []"
  by (simp add: stacked_os_def stacked_parts_def run_defs)

lemma collect_stacked:
  "collect stacked_os =
     Inr \<lparr>cpu_percent = 12, load_avg = [1, 2, 3], mem_percent = 37, mem_total_bytes = 8000,
          mem_used_bytes = 3000, mem_available_bytes = 5000,
          disk = [mk_item (str ''/'') example_usage],
          net_io = \<lparr>bytes_sent = 10, bytes_recv = 20\<rparr>, uptime_seconds = 600,
          hostname = str ''host''\<rparr>"
  by (simp add: stacked_os_def stacked_parts_def run_defs)

lemma spec_enumerated_stacked: "spec_enumerated stacked_os stacked_parts = [str ''/mnt'']"
  by (simp add: spec_enumerated_def usage_denied_def stacked_os_def stacked_parts_def run_defs)

lemma collect_repeated:
  "collect repeated_os =
     Inr \<lparr>cpu_percent = 12, load_avg = [1, 2, 3], mem_percent = 37, mem_total_bytes = 8000,
          mem_used_bytes = 3000, mem_available_bytes = 5000,
          disk = [mk_item (str ''/'') example_usage, mk_item (str ''/data'') example_usage],
          net_io = \<lparr>bytes_sent = 10, bytes_recv = 20\<rparr>, uptime_seconds = 600,
          hostname = str ''host''\<rparr>"
  by (simp add: repeated_os_def repeated_parts_def run_defs)

lemma collect_no_loadavg:
  "collect no_loadavg_os =
     Inr \<lparr>cpu_percent = 12, load_avg = [0, 0, 0], mem_percent = 37, mem_total_bytes = 8000,
          mem_used_bytes = 3000, mem_available_bytes = 5000,
          disk = [mk_item (str ''/'') example_usage],
          net_io = \<lparr>bytes_sent = 10, bytes_recv = 20\<rparr>, uptime_seconds = 600,
          hostname = str ''host''\<rparr>"
  by (simp add: no_loadavg_os_def run_defs)

lemma collect_proc_denied:
  "collect proc_denied_os = Inl (PermissionError (str ''Permission denied: /proc/stat''))"
  by (simp add: proc_denied_os_def collect_def example_os_def)


lemma metrics_endpoint_example_run:
  assumes "collect os = Inr m"
  shows "metrics_endpoint None os None
           = (200, \<lparr>ok = True, ts = timestamp os, metrics = Some m, error = None\<rparr>)"
  using assms by (simp add: metrics_endpoint_def require_auth_def)

text \<open>
  C5. A successful collection has a non-empty disk sequence: when the loop over the
  partitions leaves no entry, the query of \<^verbatim>\<open>"/"\<close> gives the single entry.
\<close>

theorem disk_never_empty:
  assumes "metrics_endpoint MONITOR_TOKEN os authorization = (status, r)" and "ok r"
  shows "\<exists>m. metrics r = Some m \<and> disk m \<noteq> []
           \<and> (\<forall>parts. psutil_disk_partitions os = Inr parts
                 \<longrightarrow> disk_loop os parts {} [] = Inr []
                 \<longrightarrow> (\<exists>du. psutil_disk_usage os (str ''/'') = Inr du
                        \<and> disk m = [mk_item (str ''/'') du]))"
proof -
  from metrics_endpoint_cases [of MONITOR_TOKEN os authorization] assms
  obtain m where c: "collect os = Inr m" and r: "metrics r = Some m"
    using on_exception_shape [of os] by (metis snd_conv ApiResponse.select_convs(3))
  from collect_InrD [OF c] obtain parts items where
    p: "psutil_disk_partitions os = Inr parts" and l: "disk_loop os parts {} [] = Inr items"
    and f: "disk_fallback os items = Inr (disk m)" by blast
  from disk_fallback_InrD [OF f] have "disk m \<noteq> []" by auto
  moreover from disk_fallback_InrD [OF f] p l
  have "\<forall>parts. psutil_disk_partitions os = Inr parts
                 \<longrightarrow> disk_loop os parts {} [] = Inr []
                 \<longrightarrow> (\<exists>du. psutil_disk_usage os (str ''/'') = Inr du
                        \<and> disk m = [mk_item (str ''/'') du])" by auto
  ultimately show ?thesis using r by blast
qed


theorem disk_never_empty_witness:
  "metrics_endpoint None squashfs_root_os None
     = (200, \<lparr>ok = True, ts = timestamp squashfs_root_os,
              metrics = Some \<lparr>cpu_percent = 12, load_avg = [1, 2, 3], mem_percent = 37,
                mem_total_bytes = 8000, mem_used_bytes = 3000, mem_available_bytes = 5000,
                disk = [mk_item (str ''/'') example_usage],
                net_io = \<lparr>bytes_sent = 10, bytes_recv = 20\<rparr>, uptime_seconds = 600,
                hostname = str ''host''\<rparr>, error = None\<rparr>)
   \<and> (\<exists>m. metrics (snd (metrics_endpoint None squashfs_root_os None)) = Some m \<and> disk m \<noteq> [])"
proof -
  note run = metrics_endpoint_example_run [OF collect_squashfs_root]
  from disk_never_empty [OF run] have
    "\<exists>m. metrics (snd (metrics_endpoint None squashfs_root_os None)) = Some m \<and> disk m \<noteq> []"
    by (simp add: run)
  with run show ?thesis by blast
qed

text \<open>
  C7. When \<^verbatim>\<open>os.getloadavg()\<close> raises, the handler answers as if it had returned
  \<open>(0, 0, 0)\<close>: a snapshot then carries \<open>[0, 0, 0]\<close>, and a failure of the collection is
  the same failure when the load average is available.
\<close>

theorem loadavg_unavailable_substituted:
  assumes "os_getloadavg os = Inl e"
  shows "metrics_endpoint MONITOR_TOKEN os authorization
           = metrics_endpoint MONITOR_TOKEN (os\<lparr>os_getloadavg := Inr (0, 0, 0)\<rparr>) authorization
         \<and> (\<forall>m. collect os = Inr m \<longrightarrow> load_avg m = [0, 0, 0])
         \<and> (\<forall>e' l. collect os = Inl e' \<longrightarrow> collect (os\<lparr>os_getloadavg := Inr l\<rparr>) = Inl e')"
proof -
  have d: "disk_loop (os\<lparr>os_getloadavg := x\<rparr>) ps seen items = disk_loop os ps seen items"
    for x ps seen items
    by (rule disk_loop_cong_os) simp
  have t: "timestamp (os\<lparr>os_getloadavg := x\<rparr>) = timestamp os" for x
    by (simp add: timestamp_def)
  have ex: "on_exception (os\<lparr>os_getloadavg := x\<rparr>) e' = on_exception os e'" for x e'
    by (cases e') (simp_all add: t)
  from assms have c: "collect (os\<lparr>os_getloadavg := Inr (0, 0, 0)\<rparr>) = collect os"
    by (simp add: collect_def d disk_fallback_def Let_def split: sum.splits)
  have 1: "metrics_endpoint MONITOR_TOKEN os authorization
           = metrics_endpoint MONITOR_TOKEN (os\<lparr>os_getloadavg := Inr (0, 0, 0)\<rparr>) authorization"
    by (simp add: metrics_endpoint_def c t ex split: sum.splits)
  from assms have 2: "\<forall>m. collect os = Inr m \<longrightarrow> load_avg m = [0, 0, 0]"
    by (auto simp: collect_def Let_def split: sum.splits)
  have 3: "\<forall>e' l. collect os = Inl e' \<longrightarrow> collect (os\<lparr>os_getloadavg := Inr l\<rparr>) = Inl e'"
    using assms by (auto simp: collect_def d disk_fallback_def Let_def split: sum.splits)
  from 1 2 3 show ?thesis by blast
qed


theorem loadavg_unavailable_substituted_witness:
  "os_getloadavg no_loadavg_os = Inl (OtherError (str ''no getloadavg''))
   \<and> (\<exists>m. collect no_loadavg_os = Inr m \<and> load_avg m = [0, 0, 0])"
proof -
  have g: "os_getloadavg no_loadavg_os = Inl (OtherError (str ''no getloadavg''))"
    by (simp add: no_loadavg_os_def)
  from loadavg_unavailable_substituted [OF g, of None None] collect_no_loadavg g
  show ?thesis by blast
qed

lemma gmtime_range_example: "gmtime_range (time_gmtime example_os)"
  by (simp add: gmtime_range_def example_os_def)

text \<open>
  C8. Every response of the handler is one of the two variants: a success with a snapshot
  and no error message, or a failure with an error message and no snapshot. In both the
  timestamp is the formatted \<^verbatim>\<open>time.gmtime()\<close>, of the shape \<^verbatim>\<open>YYYY-MM-DDTHH:MM:SSZ\<close>
  (for a clock whose year has four digits, \<open>gmtime_range\<close>).
\<close>

theorem api_response_one_variant:
  assumes "gmtime_range (time_gmtime os)"
    and "metrics_endpoint MONITOR_TOKEN os authorization = (status, r)"
  shows "((ok r \<and> metrics r \<noteq> None \<and> error r = None)
          \<or> (\<not> ok r \<and> metrics r = None \<and> error r \<noteq> None))
         \<and> ts r = timestamp os \<and> iso8601_utc_seconds (ts r)"
proof -
  from metrics_endpoint_cases [of MONITOR_TOKEN os authorization]
  have "(\<exists>e. metrics_endpoint MONITOR_TOKEN os authorization = on_exception os e)
        \<or> (\<exists>m. metrics_endpoint MONITOR_TOKEN os authorization
            = (200, \<lparr>ok = True, ts = timestamp os, metrics = Some m, error = None\<rparr>))"
    by blast
  then have "((ok r \<and> metrics r \<noteq> None \<and> error r = None)
          \<or> (\<not> ok r \<and> metrics r = None \<and> error r \<noteq> None)) \<and> ts r = timestamp os"
  proof (elim disjE exE)
    fix e
    assume "metrics_endpoint MONITOR_TOKEN os authorization = on_exception os e"
    with assms(2) have "r = snd (on_exception os e)" by simp
    with on_exception_shape [of os e] show ?thesis by simp
  next
    fix m
    assume "metrics_endpoint MONITOR_TOKEN os authorization
            = (200, \<lparr>ok = True, ts = timestamp os, metrics = Some m, error = None\<rparr>)"
    with assms(2) show ?thesis by auto
  qed
  with timestamp_iso [OF assms(1)] show ?thesis by simp
qed

theorem api_response_one_variant_witness:
  "gmtime_range (time_gmtime example_os)
   \<and> ts (snd (metrics_endpoint None example_os None)) = str ''2026-11-04T09:05:00Z''
   \<and> iso8601_utc_seconds (str ''2026-11-04T09:05:00Z'')
   \<and> ok (snd (metrics_endpoint None example_os None))
   \<and> error (snd (metrics_endpoint None example_os None)) = None"
proof -
  note run = metrics_endpoint_example_run [OF collect_example]
  from api_response_one_variant [OF gmtime_range_example run] gmtime_range_example
  show ?thesis by (simp add: run timestamp_example)
qed

text \<open>
  C2. The handler answers 401 to every \<open>PermissionError\<close> raised in its \<^verbatim>\<open>try\<close> block, also
  to one raised by an OS query: here no secret is configured, the check of the credential
  passes, \<^verbatim>\<open>psutil.cpu_percent\<close> is denied, and the status is 401.
\<close>

theorem os_permission_error_gives_401:
  "require_auth None None = Inr ()
   \<and> metrics_endpoint None proc_denied_os None
       = (401, \<lparr>ok = False, ts = str ''2026-11-04T09:05:00Z'', metrics = None,
                error = Some (str ''Permission denied: /proc/stat'')\<rparr>)"
proof -
  have "timestamp proc_denied_os = timestamp example_os"
    by (simp add: timestamp_def proc_denied_os_def)
  then show ?thesis
    by (simp add: metrics_endpoint_def require_auth_def collect_proc_denied timestamp_example)
qed

subsection \<open>Disk enumeration\<close>


lemma distinct_map_filter_one:
  assumes "distinct (map f xs)" and "x \<in> set xs"
  shows "length (filter (\<lambda>d. f d = f x) xs) = 1"
  using assms
proof (induction xs)
  case Nil
  then show ?case by simp
next
  case (Cons a xs)
  show ?case
  proof (cases "x = a")
    case True
    with Cons.prems have "filter (\<lambda>d. f d = f x) xs = []"
      by (auto simp: filter_empty_conv image_iff)
    with True show ?thesis by simp
  next
    case False
    with Cons.prems have "x \<in> set xs" and "f a \<noteq> f x" by auto
    with Cons show ?thesis by simp
  qed
qed

lemma disk_fallback_distinct:
  assumes "disk_fallback os items = Inr ds" and "distinct (map mount items)"
  shows "distinct (map mount ds)"
  using disk_fallback_InrD [OF assms(1)] assms(2) by auto

lemma disk_loop_distinct:
  assumes "disk_loop os parts {} [] = Inr items"
  shows "distinct (map mount items)"
proof -
  from disk_loop_mounts [OF assms]
  have "map mount items = map mountpoint (filter (listed os) (first_by_mount {} parts))" by simp
  moreover have "distinct (map mountpoint (filter (listed os) (first_by_mount {} parts)))"
    using first_by_mount_mounts [of "{}" parts] by (simp add: distinct_map_filter)
  ultimately show ?thesis by simp
qed

text \<open>
  C4 (amended). The loop deduplicates by mount path first, over all the enumerated
  partitions and with the first occurrence winning, and only then excludes the pseudo
  filesystem types and the mounts whose usage query is denied. So the snapshot has at most
  one entry for a mount path, and exactly one for the path of a partition that is the first
  to report it, is not of a pseudo type and whose usage can be read.
\<close>

theorem disk_enumeration_dedup_then_exclude:
  assumes "collect os = Inr m" and "psutil_disk_partitions os = Inr parts"
  shows "distinct (map mount (disk m))
         \<and> (\<exists>items. disk_loop os parts {} [] = Inr items
              \<and> map mount items = map mountpoint (filter (listed os) (first_by_mount {} parts))
              \<and> (items \<noteq> [] \<longrightarrow> disk m = items))
         \<and> (\<forall>p\<in>set (first_by_mount {} parts). listed os p \<longrightarrow>
              length (filter (\<lambda>d. mount d = mountpoint p) (disk m)) = 1)"
proof -
  from collect_InrD [OF assms(1)] assms(2) obtain items where
    l: "disk_loop os parts {} [] = Inr items" and f: "disk_fallback os items = Inr (disk m)"
    by auto
  from disk_loop_mounts [OF l]
  have ms: "map mount items = map mountpoint (filter (listed os) (first_by_mount {} parts))"
    by simp
  have d: "distinct (map mount (disk m))"
    by (rule disk_fallback_distinct [OF f disk_loop_distinct [OF l]])
  from disk_fallback_InrD [OF f] have same: "items \<noteq> [] \<longrightarrow> disk m = items" by auto
  have "length (filter (\<lambda>d. mount d = mountpoint p) (disk m)) = 1"
    if p: "p \<in> set (first_by_mount {} parts)" "listed os p" for p
  proof -
    from p have "mountpoint p \<in> set (map mountpoint (filter (listed os) (first_by_mount {} parts)))"
      by auto
    with ms have "mountpoint p \<in> set (map mount items)" by simp
    then obtain x where x: "x \<in> set items" "mount x = mountpoint p" by auto
    then have "items \<noteq> []" by auto
    with same have "disk m = items" by simp
    with d x distinct_map_filter_one [of mount items x] show ?thesis by simp
  qed
  with d l ms same show ?thesis by blast
qed

theorem disk_enumeration_dedup_then_exclude_witness:
  "psutil_disk_partitions repeated_os = Inr repeated_parts
   \<and> (\<exists>m. collect repeated_os = Inr m \<and> map mount (disk m) = [str ''/'', str ''/data'']
          \<and> distinct (map mount (disk m)))"
proof -
  have p: "psutil_disk_partitions repeated_os = Inr repeated_parts"
    by (simp add: repeated_os_def)
  from disk_enumeration_dedup_then_exclude [OF collect_repeated p] collect_repeated p
  show ?thesis by (simp add: mk_item_def)
qed

text \<open>
  C4 as stated fails: two partitions report \<^verbatim>\<open>/mnt\<close>, the first of a pseudo type. Excluding
  first and deduplicating then keeps \<^verbatim>\<open>/mnt\<close>; the loop keeps nothing, and the snapshot has
  no entry for \<^verbatim>\<open>/mnt\<close>.
\<close>

theorem stacked_mounts_counterexample:
  "psutil_disk_partitions stacked_os = Inr stacked_parts
   \<and> map mountpoint stacked_parts = [str ''/mnt'', str ''/mnt'']
   \<and> spec_enumerated stacked_os stacked_parts = [str ''/mnt'']
   \<and> disk_loop stacked_os stacked_parts {} [] = Inr []
   \<and> map_sum id (map mount \<circ> disk) (collect stacked_os) = Inr [str ''/'']"
  by (simp add: spec_enumerated_stacked disk_loop_stacked collect_stacked mk_item_def)
    (simp add: stacked_os_def stacked_parts_def part_def)


lemma first_by_mount_iff:
  "p \<in> set (first_by_mount seen ps) \<longleftrightarrow>
     (\<exists>pre post. ps = pre @ p # post \<and> mountpoint p \<notin> seen
        \<and> mountpoint p \<notin> mountpoint ` set pre)"
proof (induction ps arbitrary: seen)
  case Nil
  then show ?case by simp
next
  case (Cons a ps)
  let ?rhs = "\<lambda>seen ps. \<exists>pre post. ps = pre @ p # post \<and> mountpoint p \<notin> seen
        \<and> mountpoint p \<notin> mountpoint ` set pre"
  have unfold: "?rhs seen (a # ps) \<longleftrightarrow>
      (a = p \<and> mountpoint p \<notin> seen) \<or> (mountpoint a \<noteq> mountpoint p \<and> ?rhs seen ps)"
  proof
    assume "?rhs seen (a # ps)"
    then obtain pre post where e: "a # ps = pre @ p # post" and s: "mountpoint p \<notin> seen"
      and n: "mountpoint p \<notin> mountpoint ` set pre" by blast
    show "(a = p \<and> mountpoint p \<notin> seen) \<or> (mountpoint a \<noteq> mountpoint p \<and> ?rhs seen ps)"
    proof (cases pre)
      case Nil
      with e s show ?thesis by simp
    next
      case (Cons b pre')
      with e n have "a = b" "ps = pre' @ p # post" "mountpoint a \<noteq> mountpoint p"
        "mountpoint p \<notin> mountpoint ` set pre'" by auto
      with s show ?thesis by blast
    qed
  next
    assume "(a = p \<and> mountpoint p \<notin> seen) \<or> (mountpoint a \<noteq> mountpoint p \<and> ?rhs seen ps)"
    then show "?rhs seen (a # ps)"
    proof
      assume "a = p \<and> mountpoint p \<notin> seen"
      then have "a # ps = [] @ p # ps \<and> mountpoint p \<notin> seen \<and> mountpoint p \<notin> mountpoint ` set []"
        by simp
      then show ?thesis by blast
    next
      assume "mountpoint a \<noteq> mountpoint p \<and> ?rhs seen ps"
      then obtain pre post where "ps = pre @ p # post" "mountpoint p \<notin> seen"
        "mountpoint p \<notin> mountpoint ` set pre" "mountpoint a \<noteq> mountpoint p" by blast
      then have "a # ps = (a # pre) @ p # post \<and> mountpoint p \<notin> seen
          \<and> mountpoint p \<notin> mountpoint ` set (a # pre)" by auto
      then show ?thesis by blast
    qed
  qed
  show ?case
  proof (cases "mountpoint a \<in> seen")
    case True
    then have "a = p \<and> mountpoint p \<notin> seen \<longleftrightarrow> False" by auto
    moreover from True have "?rhs seen ps \<Longrightarrow> mountpoint a \<noteq> mountpoint p" by auto
    ultimately show ?thesis using True Cons.IH [of seen] unfold by auto
  next
    case False
    have "?rhs (insert (mountpoint a) seen) ps \<longleftrightarrow> mountpoint a \<noteq> mountpoint p \<and> ?rhs seen ps"
      by auto
    with False Cons.IH [of "insert (mountpoint a) seen"] unfold show ?thesis by auto
  qed
qed

text \<open>
  C6 (amended). For a partition of a pseudo filesystem type that is the first to report
  its mount path, the loop appends no entry with that path; the snapshot has an entry with
  that path only when the path is \<^verbatim>\<open>"/"\<close> and the loop left no entry, through the fallback.
\<close>

theorem pseudo_partition_not_listed:
  assumes "collect os = Inr m" and "psutil_disk_partitions os = Inr parts"
    and "p \<in> set (first_by_mount {} parts)" and "fstype p \<in> set pseudo_fstypes"
  shows "(\<exists>items. disk_loop os parts {} [] = Inr items \<and> mountpoint p \<notin> mount ` set items)
         \<and> (mountpoint p \<in> mount ` set (disk m)
              \<longrightarrow> mountpoint p = str ''/'' \<and> disk_loop os parts {} [] = Inr [])"
proof -
  from collect_InrD [OF assms(1)] assms(2) obtain items where
    l: "disk_loop os parts {} [] = Inr items" and f: "disk_fallback os items = Inr (disk m)"
    by auto
  from disk_loop_mounts [OF l]
  have ms: "map mount items = map mountpoint (filter (listed os) (first_by_mount {} parts))"
    by simp
  have inj: "inj_on mountpoint (set (first_by_mount {} parts))"
    using first_by_mount_mounts [of "{}" parts] by (simp add: distinct_map)
  have n: "mountpoint p \<notin> mount ` set items"
  proof
    assume "mountpoint p \<in> mount ` set items"
    then have "mountpoint p \<in> set (map mount items)" by simp
    with ms obtain q where q: "q \<in> set (first_by_mount {} parts)" "listed os q"
      "mountpoint q = mountpoint p" by auto
    with inj assms(3) have "q = p" by (auto dest: inj_onD)
    with q assms(4) show False by (simp add: listed_def)
  qed
  from disk_fallback_InrD [OF f] n l
  have "mountpoint p \<in> mount ` set (disk m)
              \<longrightarrow> mountpoint p = str ''/'' \<and> disk_loop os parts {} [] = Inr []"
    by (auto simp: mk_item_def)
  with l n show ?thesis by blast
qed

theorem pseudo_partition_not_listed_witness:
  "psutil_disk_partitions repeated_os = Inr repeated_parts
   \<and> part ''tmpfs'' ''/run'' ''tmpfs'' \<in> set (first_by_mount {} repeated_parts)
   \<and> fstype (part ''tmpfs'' ''/run'' ''tmpfs'') \<in> set pseudo_fstypes
   \<and> (\<exists>m. collect repeated_os = Inr m \<and> str ''/run'' \<notin> mount ` set (disk m))"
proof -
  have p: "psutil_disk_partitions repeated_os = Inr repeated_parts"
    by (simp add: repeated_os_def)
  have i: "part ''tmpfs'' ''/run'' ''tmpfs'' \<in> set (first_by_mount {} repeated_parts)"
    by (simp add: repeated_parts_def part_def str_def)
  have t: "fstype (part ''tmpfs'' ''/run'' ''tmpfs'') \<in> set pseudo_fstypes"
    by (simp add: part_def pseudo_fstypes_def)
  have r: "mountpoint (part ''tmpfs'' ''/run'' ''tmpfs'') = str ''/run''"
    by (simp add: part_def)
  have "str ''/run'' \<noteq> str ''/''" by (simp add: str_def)
  with pseudo_partition_not_listed [OF collect_repeated p i t] r p i t collect_repeated
  show ?thesis by auto
qed

text \<open>
  C6 as stated fails: the only partition is a \<^verbatim>\<open>squashfs\<close> mounted at \<^verbatim>\<open>"/"\<close>; the loop skips
  it, and the fallback reports its usage under the mount path \<^verbatim>\<open>"/"\<close>.
\<close>

theorem squashfs_root_counterexample:
  "psutil_disk_partitions squashfs_root_os = Inr [part ''/dev/root'' ''/'' ''squashfs'']
   \<and> fstype (part ''/dev/root'' ''/'' ''squashfs'') \<in> set pseudo_fstypes
   \<and> mountpoint (part ''/dev/root'' ''/'' ''squashfs'') = str ''/''
   \<and> map_sum id (map mount \<circ> disk) (collect squashfs_root_os) = Inr [str ''/'']"
  by (simp add: collect_squashfs_root mk_item_def)
    (simp add: squashfs_root_os_def part_def pseudo_fstypes_def)

section \<open>The byte-count helper\<close>

subsection \<open>Rounding\<close>

lemma round_half_even_cases:
  "round_half_even x = \<lfloor>x\<rfloor> \<and> x - of_int \<lfloor>x\<rfloor> \<le> 1 / 2
   \<or> round_half_even x = \<lfloor>x\<rfloor> + 1 \<and> 1 / 2 \<le> x - of_int \<lfloor>x\<rfloor>"
  by (auto simp: round_half_even_def Let_def)

lemma round_half_even_upper: "of_int (round_half_even x) \<le> x + 1 / 2"
proof -
  have f: "of_int \<lfloor>x\<rfloor> \<le> x" by (rule of_int_floor_le)
  from round_half_even_cases [of x] show ?thesis
  proof (elim disjE conjE)
    assume a: "round_half_even x = \<lfloor>x\<rfloor>"
    from f show ?thesis unfolding a by linarith
  next
    assume a: "round_half_even x = \<lfloor>x\<rfloor> + 1" and "1 / 2 \<le> x - of_int \<lfloor>x\<rfloor>"
    then show ?thesis unfolding a of_int_add of_int_1 by linarith
  qed
qed

lemma round_half_even_lower: "x - 1 / 2 \<le> of_int (round_half_even x)"
proof -
  have f: "x < of_int \<lfloor>x\<rfloor> + 1" by linarith
  from round_half_even_cases [of x] show ?thesis
  proof (elim disjE conjE)
    assume a: "round_half_even x = \<lfloor>x\<rfloor>" and "x - of_int \<lfloor>x\<rfloor> \<le> 1 / 2"
    then show ?thesis unfolding a by linarith
  next
    assume a: "round_half_even x = \<lfloor>x\<rfloor> + 1"
    from f show ?thesis unfolding a of_int_add of_int_1 by linarith
  qed
qed

lemma round_half_even_of_int [simp]: "round_half_even (of_int k) = k"
  by (simp add: round_half_even_def)

lemma round_half_even_of_nat [simp]: "round_half_even (of_nat k) = int k"
  using round_half_even_of_int [of "int k"] by simp

lemma round_half_even_mono:
  assumes "x \<le> y"
  shows "round_half_even x \<le> round_half_even y"
proof (rule ccontr)
  assume "\<not> round_half_even x \<le> round_half_even y"
  then have gt: "round_half_even y + 1 \<le> round_half_even x" by simp
  then have "(of_int (round_half_even y) :: rat) + 1 \<le> of_int (round_half_even x)"
    by (metis of_int_1 of_int_add of_int_le_iff)
  with round_half_even_upper [of x] round_half_even_lower [of y] assms
  have "x = y" by linarith
  with gt show False by simp
qed

lemma round_half_even_tie_odd:
  assumes "odd k"
  shows "round_half_even (of_int k + 1 / 2) = k + 1"
proof -
  have "\<lfloor>(of_int k :: rat) + 1 / 2\<rfloor> = k" by linarith
  with assms show ?thesis by (simp add: round_half_even_def Let_def)
qed

subsection \<open>Bit length\<close>

lemma bit_length_0 [simp]: "bit_length 0 = 0"
  by simp

lemma bit_length_pos: "0 < n \<Longrightarrow> bit_length n = Suc (bit_length (n div 2))"
  by simp

declare bit_length.simps [simp del]

lemma bit_length_upper: "n < 2 ^ bit_length n"
proof (induction n rule: bit_length.induct)
  case (1 n)
  show ?case
  proof (cases "n = 0")
    case True
    then show ?thesis by simp
  next
    case False
    with "1" have "n div 2 < 2 ^ bit_length (n div 2)" by simp
    then have "n < 2 * 2 ^ bit_length (n div 2)" by linarith
    with False show ?thesis by (simp add: bit_length_pos)
  qed
qed

lemma bit_length_lower: "0 < n \<Longrightarrow> 2 ^ (bit_length n - 1) \<le> n"
proof (induction n rule: bit_length.induct)
  case (1 n)
  show ?case
  proof (cases "n div 2 = 0")
    case True
    with "1.prems" have "n = 1" by linarith
    then show ?thesis by (simp add: bit_length_pos)
  next
    case False
    with "1" have "2 ^ (bit_length (n div 2) - 1) \<le> n div 2" by simp
    then have "2 * 2 ^ (bit_length (n div 2) - 1) \<le> n" by linarith
    moreover from False have "0 < bit_length (n div 2)" by (simp add: bit_length_pos)
    then have "bit_length (n div 2) = Suc (bit_length (n div 2) - 1)" by simp
    ultimately show ?thesis using "1.prems"
      by (simp add: bit_length_pos) (metis power_Suc)
  qed
qed

lemma bit_length_le: "n < 2 ^ k \<Longrightarrow> bit_length n \<le> k"
proof (rule ccontr)
  assume n: "n < 2 ^ k" and "\<not> bit_length n \<le> k"
  then have k: "k \<le> bit_length n - 1" and "0 < bit_length n" by simp_all
  then have "0 < n" by (cases "n = 0") simp_all
  from bit_length_lower [OF this] k have "(2::nat) ^ k \<le> n"
    by (meson le_trans power_increasing one_le_numeral)
  with n show False by simp
qed

lemma bit_length_gt: "2 ^ k \<le> n \<Longrightarrow> k < bit_length n"
proof (rule ccontr)
  assume n: "2 ^ k \<le> n" and "\<not> k < bit_length n"
  then have "(2::nat) ^ bit_length n \<le> 2 ^ k" by (simp add: power_increasing)
  with bit_length_upper [of n] n show False by simp
qed

lemma bit_length_eq: "2 ^ k \<le> n \<Longrightarrow> n < 2 ^ Suc k \<Longrightarrow> bit_length n = Suc k"
  using bit_length_gt [of k n] bit_length_le [of n "Suc k"] by simp

lemma bit_length_mono: "m \<le> n \<Longrightarrow> bit_length m \<le> bit_length n"
  using bit_length_upper [of n] by (intro bit_length_le) simp


subsection \<open>The nearest double\<close>

lemma pow2_split: "e \<le> k \<Longrightarrow> (2::rat) ^ (k - e) * 2 ^ e = 2 ^ k"
  by (simp flip: power_add)

lemma scaled_le_pow2:
  assumes "a \<le> 2 ^ k" and "e \<le> k"
  shows "(of_nat a :: rat) / 2 ^ e \<le> 2 ^ (k - e)"
proof -
  from assms(1) have "(of_nat a :: rat) \<le> of_nat (2 ^ k)" by (simp only: of_nat_le_iff)
  then have "(of_nat a :: rat) \<le> 2 ^ k" by simp
  with pow2_split [OF assms(2)] have "(of_nat a :: rat) \<le> 2 ^ (k - e) * 2 ^ e" by simp
  then show ?thesis by (simp add: pos_divide_le_eq)
qed

lemma scaled_ge_pow2:
  assumes "2 ^ k \<le> a" and "e \<le> k"
  shows "(2::rat) ^ (k - e) \<le> of_nat a / 2 ^ e"
proof -
  from assms(1) have "(of_nat (2 ^ k) :: rat) \<le> of_nat a" by (simp only: of_nat_le_iff)
  then have "(2::rat) ^ k \<le> of_nat a" by simp
  with pow2_split [OF assms(2)] have "(2::rat) ^ (k - e) * 2 ^ e \<le> of_nat a" by simp
  then show ?thesis by (simp add: pos_le_divide_eq)
qed

lemma round_half_even_pow2 [simp]: "round_half_even (2 ^ k) = 2 ^ k"
  using round_half_even_of_int [of "2 ^ k"] by simp

lemma nearest_double_upper: "nearest_double a \<le> 2 ^ bit_length a"
proof -
  let ?k = "bit_length a" and ?e = "bit_length a - 53"
  have "a \<le> 2 ^ ?k" using bit_length_upper [of a] by simp
  then have "(of_nat a :: rat) / 2 ^ ?e \<le> 2 ^ (?k - ?e)" by (rule scaled_le_pow2) simp
  then have "round_half_even (of_nat a / 2 ^ ?e) \<le> round_half_even (2 ^ (?k - ?e))"
    by (rule round_half_even_mono)
  then have "round_half_even (of_nat a / 2 ^ ?e) \<le> 2 ^ (?k - ?e)" by simp
  then have "(of_int (round_half_even (of_nat a / 2 ^ ?e)) :: rat) \<le> of_int (2 ^ (?k - ?e))"
    by (simp only: of_int_le_iff)
  then have "(of_int (round_half_even (of_nat a / 2 ^ ?e)) :: rat) * 2 ^ ?e \<le> 2 ^ (?k - ?e) * 2 ^ ?e"
    by (simp add: mult_right_mono)
  also have "(2::rat) ^ (?k - ?e) * 2 ^ ?e = 2 ^ ?k" by (rule pow2_split) simp
  finally show ?thesis unfolding nearest_double_def Let_def .
qed

lemma nearest_double_lower:
  assumes "0 < a"
  shows "2 ^ (bit_length a - 1) \<le> nearest_double a"
proof -
  let ?k = "bit_length a - 1" and ?e = "bit_length a - 53"
  have e: "?e \<le> ?k" by simp
  from bit_length_lower [OF assms] have "(2::rat) ^ (?k - ?e) \<le> of_nat a / 2 ^ ?e"
    by (rule scaled_ge_pow2) (rule e)
  then have "round_half_even (2 ^ (?k - ?e)) \<le> round_half_even (of_nat a / 2 ^ ?e)"
    by (rule round_half_even_mono)
  then have "2 ^ (?k - ?e) \<le> round_half_even (of_nat a / 2 ^ ?e)" by simp
  then have "(of_int (2 ^ (?k - ?e)) :: rat) \<le> of_int (round_half_even (of_nat a / 2 ^ ?e))"
    by (simp only: of_int_le_iff)
  then have m: "(2::rat) ^ (?k - ?e) * 2 ^ ?e \<le> of_int (round_half_even (of_nat a / 2 ^ ?e)) * 2 ^ ?e"
    by (simp add: mult_right_mono)
  have "(2::rat) ^ ?k = 2 ^ (?k - ?e) * 2 ^ ?e" by (rule pow2_split [symmetric]) (rule e)
  also note m
  finally show ?thesis unfolding nearest_double_def Let_def .
qed

lemma nearest_double_exact:
  assumes "a < 2 ^ 53"
  shows "nearest_double a = of_nat a"
proof -
  from assms have "bit_length a \<le> 53" by (rule bit_length_le)
  then show ?thesis by (simp add: nearest_double_def)
qed

lemma nearest_double_mono:
  assumes "a \<le> b"
  shows "nearest_double a \<le> nearest_double b"
proof (cases "bit_length a = bit_length b")
  case True
  let ?e = "bit_length b - 53"
  from assms have "(of_nat a :: rat) / 2 ^ ?e \<le> of_nat b / 2 ^ ?e"
    by (simp add: divide_right_mono)
  then have "round_half_even (of_nat a / 2 ^ ?e) \<le> round_half_even (of_nat b / 2 ^ ?e)"
    by (rule round_half_even_mono)
  then have "(of_int (round_half_even (of_nat a / 2 ^ ?e)) :: rat)
             \<le> of_int (round_half_even (of_nat b / 2 ^ ?e))"
    by (simp only: of_int_le_iff)
  then show ?thesis by (simp add: nearest_double_def Let_def True mult_right_mono)
next
  case False
  with bit_length_mono [OF assms] have lt: "bit_length a \<le> bit_length b - 1"
    and "0 < bit_length b" by simp_all
  then have "0 < b" by (cases "b = 0") simp_all
  have "nearest_double a \<le> 2 ^ bit_length a" by (rule nearest_double_upper)
  also from lt have "(2::rat) ^ bit_length a \<le> 2 ^ (bit_length b - 1)"
    by (simp add: power_increasing)
  also from \<open>0 < b\<close> have "\<dots> \<le> nearest_double b" by (rule nearest_double_lower)
  finally show ?thesis .
qed

lemma nearest_double_nonneg: "0 \<le> nearest_double a"
  using nearest_double_mono [of 0 a] nearest_double_exact [of 0] by simp

lemma nearest_double_ge_pow2:
  assumes "2 ^ k \<le> a"
  shows "2 ^ k \<le> nearest_double a"
proof -
  from assms have a: "0 < a" by (cases "a = 0") simp_all
  from bit_length_gt [OF assms] have "(2::rat) ^ k \<le> 2 ^ (bit_length a - 1)"
    by (simp add: power_increasing)
  also from a have "\<dots> \<le> nearest_double a" by (rule nearest_double_lower)
  finally show ?thesis .
qed


subsection \<open>The loop\<close>

lemma length_units [simp]: "length units = 6"
  by (simp add: units_def)

lemma human_loop_stop: "\<not> (1024 \<le> val \<and> i < 5) \<Longrightarrow> human_loop val i = (val, i)"
  by simp

lemma human_loop_step:
  "1024 \<le> val \<Longrightarrow> i < 5 \<Longrightarrow> human_loop val i = human_loop (val / 1024) (Suc i)"
  by simp

declare human_loop.simps [simp del]

lemma human_loop_iter:
  "1024 ^ k \<le> val \<Longrightarrow> i + k \<le> 5 \<Longrightarrow> human_loop val i = human_loop (val / 1024 ^ k) (i + k)"
proof (induction k arbitrary: val i)
  case 0
  then show ?case by simp
next
  case (Suc k)
  have "(1::rat) \<le> 1024 ^ k" by simp
  then have "(1024::rat) \<le> 1024 ^ Suc k" by simp
  with Suc.prems have v: "1024 \<le> val" by linarith
  from Suc.prems have i: "i < 5" by simp
  from Suc.prems have "1024 ^ k \<le> val / 1024" by (simp add: pos_le_divide_eq mult.commute)
  moreover from Suc.prems have "Suc i + k \<le> 5" by simp
  ultimately have "human_loop (val / 1024) (Suc i) = human_loop (val / 1024 / 1024 ^ k) (Suc i + k)"
    by (rule Suc.IH)
  with human_loop_step [OF v i] show ?case by (simp add: mult.commute)
qed

lemma human_loop_tier:
  assumes "k \<le> 5" and "k = 0 \<or> 1024 ^ k \<le> val" and "k = 5 \<or> val < 1024 ^ Suc k"
  shows "human_loop val 0 = (val / 1024 ^ k, k)"
proof -
  have "human_loop val 0 = human_loop (val / 1024 ^ k) k"
  proof (cases "k = 0")
    case True
    then show ?thesis by simp
  next
    case False
    with assms(2) have "1024 ^ k \<le> val" by simp
    from human_loop_iter [OF this, of 0] assms(1) show ?thesis by simp
  qed
  moreover from assms(3) have "\<not> (1024 \<le> val / 1024 ^ k \<and> k < 5)"
    by (auto simp: pos_le_divide_eq mult.commute)
  ultimately show ?thesis by (simp add: human_loop_stop)
qed

lemma tier_exists:
  "\<exists>k\<le>5. (k = 0 \<or> 1024 ^ k \<le> (val::rat)) \<and> (k = 5 \<or> val < 1024 ^ Suc k)"
proof -
  consider "val < 1024 ^ 1" | "1024 ^ 1 \<le> val" "val < 1024 ^ 2"
    | "1024 ^ 2 \<le> val" "val < 1024 ^ 3" | "1024 ^ 3 \<le> val" "val < 1024 ^ 4"
    | "1024 ^ 4 \<le> val" "val < 1024 ^ 5" | "1024 ^ 5 \<le> val"
    by linarith
  then show ?thesis
  proof cases
    case 1
    then have "(0::nat) \<le> 5 \<and> ((0::nat) = 0 \<or> 1024 ^ 0 \<le> val) \<and> ((0::nat) = 5 \<or> val < 1024 ^ Suc 0)"
      by simp
    then show ?thesis by blast
  next
    case 2
    then have "(1::nat) \<le> 5 \<and> ((1::nat) = 0 \<or> 1024 ^ 1 \<le> val) \<and> ((1::nat) = 5 \<or> val < 1024 ^ Suc 1)"
      by simp
    then show ?thesis by blast
  next
    case 3
    then have "(2::nat) \<le> 5 \<and> ((2::nat) = 0 \<or> 1024 ^ 2 \<le> val) \<and> ((2::nat) = 5 \<or> val < 1024 ^ Suc 2)"
      by simp
    then show ?thesis by blast
  next
    case 4
    then have "(3::nat) \<le> 5 \<and> ((3::nat) = 0 \<or> 1024 ^ 3 \<le> val) \<and> ((3::nat) = 5 \<or> val < 1024 ^ Suc 3)"
      by simp
    then show ?thesis by blast
  next
    case 5
    then have "(4::nat) \<le> 5 \<and> ((4::nat) = 0 \<or> 1024 ^ 4 \<le> val) \<and> ((4::nat) = 5 \<or> val < 1024 ^ Suc 4)"
      by simp
    then show ?thesis by blast
  next
    case 6
    then have "(5::nat) \<le> 5 \<and> ((5::nat) = 0 \<or> 1024 ^ 5 \<le> val) \<and> ((5::nat) = 5 \<or> val < 1024 ^ Suc 5)"
      by simp
    then show ?thesis by blast
  qed
qed

lemma human_loop_result:
  "\<exists>k\<le>5. human_loop val 0 = (val / 1024 ^ k, k)
           \<and> (k = 0 \<or> 1024 ^ k \<le> val) \<and> (k = 5 \<or> val < 1024 ^ Suc k)"
  using tier_exists [of val] human_loop_tier [of _ val] by blast

lemma human_loop_index_iff:
  assumes "k \<le> 5"
  shows "snd (human_loop val 0) = k \<longleftrightarrow> (k = 0 \<or> 1024 ^ k \<le> val) \<and> (k = 5 \<or> val < 1024 ^ Suc k)"
proof
  assume "snd (human_loop val 0) = k"
  with human_loop_result [of val] show "(k = 0 \<or> 1024 ^ k \<le> val) \<and> (k = 5 \<or> val < 1024 ^ Suc k)"
    by auto
next
  assume "(k = 0 \<or> 1024 ^ k \<le> val) \<and> (k = 5 \<or> val < 1024 ^ Suc k)"
  with human_loop_tier [OF assms, of val] show "snd (human_loop val 0) = k" by simp
qed


subsection \<open>Formatting and reading back\<close>

lemma read_dec_snoc: "read_dec (s @ [c]) = 10 * read_dec s + (c - 48)"
  by (simp add: read_dec_def)

lemma read_dec_dec: "read_dec (dec n) = n"
proof (induction n rule: dec.induct)
  case (1 n)
  show ?case
  proof (cases "n < 10")
    case True
    then show ?thesis by (simp add: dec_small read_dec_def digit_def)
  next
    case False
    with "1" show ?thesis by (simp add: dec_large read_dec_snoc digit_def)
  qed
qed

lemma dec_nonempty: "dec n \<noteq> []"
  by (cases "n < 10") (simp_all add: dec_small dec_large)

lemma is_numeric_dec: "list_all is_numeric (dec n)"
  using dec_digits [of n] by (simp add: list_all_iff is_numeric_def)

lemma take1_dec: "take 1 (dec n @ s) \<noteq> str ''-''"
proof -
  from dec_nonempty [of n] obtain c cs where d: "dec n = c # cs" by (cases "dec n") auto
  with dec_digits [of n] have "isdigit c" by simp
  with d show ?thesis by (auto simp: str_def isdigit_def)
qed

lemma tenths_split: "(of_nat (t div 10) :: rat) + of_nat (t mod 10) / 10 = of_nat t / 10"
proof -
  have "(of_nat (10 * (t div 10) + t mod 10) :: rat) = 10 * of_nat (t div 10) + of_nat (t mod 10)"
    by (simp only: of_nat_add of_nat_mult of_nat_numeral)
  then have "(of_nat t :: rat) = 10 * of_nat (t div 10) + of_nat (t mod 10)"
    by (simp only: mult_div_mod_eq)
  then have "(of_nat t :: rat) / 10 = (10 * of_nat (t div 10) + of_nat (t mod 10)) / 10"
    by (rule arg_cong)
  then show ?thesis by simp
qed

lemma read_1f_format_1f:
  "read_1f (format_1f x) = (if x < 0 then - (of_nat (tenths x) / 10) else of_nat (tenths x) / 10)"
proof -
  let ?body = "dec (tenths x div 10) @ [46, digit (tenths x mod 10)]"
  have b: "of_nat (read_dec (butlast (butlast ?body))) + of_nat (last ?body - 48) / 10
             = (of_nat (tenths x) :: rat) / 10"
    by (simp add: butlast_append read_dec_dec digit_def tenths_split)
  show ?thesis
  proof (cases "x < 0")
    case True
    then have "format_1f x = 45 # ?body" by (simp add: format_1f_def str_def)
    with True b show ?thesis by (simp add: read_1f_def str_def Let_def)
  next
    case False
    then have f: "format_1f x = ?body" by (simp add: format_1f_def str_def)
    have "take 1 ?body \<noteq> str ''-''" by (rule take1_dec)
    with False b f show ?thesis by (simp add: read_1f_def Let_def)
  qed
qed

lemma tenths_mono: "\<bar>x\<bar> \<le> \<bar>y\<bar> \<Longrightarrow> tenths x \<le> tenths y"
  unfolding tenths_def by (intro nat_mono round_half_even_mono) simp

lemma read_1f_format_1f_mono:
  assumes "x \<le> y"
  shows "read_1f (format_1f x) \<le> read_1f (format_1f y)"
proof -
  consider "y < 0" | "x < 0" "0 \<le> y" | "0 \<le> x" by linarith
  then show ?thesis
  proof cases
    case 1
    with assms have "x < 0" and "\<bar>y\<bar> \<le> \<bar>x\<bar>" by simp_all
    with 1 tenths_mono [of y x] show ?thesis by (simp add: read_1f_format_1f)
  next
    case 2
    have "- ((of_nat (tenths x) :: rat) / 10) \<le> 0" by simp
    also have "\<dots> \<le> of_nat (tenths y) / 10" by simp
    finally show ?thesis using 2 by (simp add: read_1f_format_1f)
  next
    case 3
    with assms have "0 \<le> y" and "\<bar>x\<bar> \<le> \<bar>y\<bar>" by simp_all
    with 3 tenths_mono [of x y] show ?thesis by (simp add: read_1f_format_1f)
  qed
qed

lemma is_numeric_format_1f: "list_all is_numeric (format_1f x)"
  using is_numeric_dec [of "tenths x div 10"]
  by (simp add: format_1f_def str_def is_numeric_def isdigit_def digit_def)

lemma unit_not_numeric: "i < 6 \<Longrightarrow> takeWhile is_numeric (units ! i) = []"
proof -
  assume "i < 6"
  then consider "i = 0" | "i = 1" | "i = 2" | "i = 3" | "i = 4" | "i = 5" by linarith
  then show ?thesis
    by cases (simp_all add: units_def str_def is_numeric_def isdigit_def)
qed

lemma split_output:
  assumes "i < 6"
  shows "numeric_part (format_1f x @ units ! i) = format_1f x"
    and "unit_part (format_1f x @ units ! i) = units ! i"
proof -
  have n: "\<And>c. c \<in> set (format_1f x) \<Longrightarrow> is_numeric c"
    using is_numeric_format_1f [of x] by (simp add: list_all_iff)
  from n show "numeric_part (format_1f x @ units ! i) = format_1f x"
    by (simp add: numeric_part_def unit_not_numeric [OF assms])
  have "dropWhile is_numeric (units ! i) = units ! i"
    using unit_not_numeric [OF assms] takeWhile_dropWhile_id [of is_numeric "units ! i"]
    by simp
  with n show "unit_part (format_1f x @ units ! i) = units ! i"
    by (simp add: unit_part_def)
qed

lemma distinct_units: "distinct units"
  by (simp add: units_def str_def)

lemma units_nth_eq: "i < 6 \<Longrightarrow> j < 6 \<Longrightarrow> units ! i = units ! j \<longleftrightarrow> i = j"
  using distinct_units by (simp add: nth_eq_iff_index_eq)


subsection \<open>Conversion to a double\<close>

lemma py_float_cases:
  "(2 ^ 1024 \<le> nearest_double (nat \<bar>n\<bar>)
      \<and> py_float n = Inl (OverflowError (str ''int too large to convert to float'')))
   \<or> (nearest_double (nat \<bar>n\<bar>) < 2 ^ 1024
      \<and> py_float n = Inr (if n < 0 then - nearest_double (nat \<bar>n\<bar>) else nearest_double (nat \<bar>n\<bar>)))"
  by (simp add: py_float_def Let_def)

lemma py_float_mono:
  assumes "py_float n1 = Inr v1" and "py_float n2 = Inr v2" and "n1 \<le> n2"
  shows "v1 \<le> v2"
proof -
  from py_float_cases [of n1] assms(1)
  have v1: "v1 = (if n1 < 0 then - nearest_double (nat \<bar>n1\<bar>) else nearest_double (nat \<bar>n1\<bar>))"
    by auto
  from py_float_cases [of n2] assms(2)
  have v2: "v2 = (if n2 < 0 then - nearest_double (nat \<bar>n2\<bar>) else nearest_double (nat \<bar>n2\<bar>))"
    by auto
  consider "n2 < 0" | "n1 < 0" "0 \<le> n2" | "0 \<le> n1" by linarith
  then show ?thesis
  proof cases
    case 1
    with assms(3) have "n1 < 0" and "nat \<bar>n2\<bar> \<le> nat \<bar>n1\<bar>" by simp_all
    with 1 v1 v2 nearest_double_mono [of "nat \<bar>n2\<bar>" "nat \<bar>n1\<bar>"] show ?thesis by simp
  next
    case 2
    with v1 v2 nearest_double_nonneg [of "nat \<bar>n1\<bar>"] nearest_double_nonneg [of "nat \<bar>n2\<bar>"]
    show ?thesis by simp
  next
    case 3
    with assms(3) have "0 \<le> n2" and "nat \<bar>n1\<bar> \<le> nat \<bar>n2\<bar>" by simp_all
    with 3 v1 v2 nearest_double_mono [of "nat \<bar>n1\<bar>" "nat \<bar>n2\<bar>"] show ?thesis by simp
  qed
qed

lemma nearest_double_cmp:
  assumes "p \<le> 2 ^ 53"
  shows "of_nat p \<le> nearest_double a \<longleftrightarrow> p \<le> a"
proof (cases "a < 2 ^ 53")
  case True
  then show ?thesis by (simp add: nearest_double_exact)
next
  case False
  then have a: "2 ^ 53 \<le> a" by simp
  from assms have "(of_nat p :: rat) \<le> of_nat (2 ^ 53)" by (simp only: of_nat_le_iff)
  also have "\<dots> = 2 ^ 53" by simp
  also from a have "\<dots> \<le> nearest_double a" by (rule nearest_double_ge_pow2)
  finally show ?thesis using a assms by simp
qed

lemma pow1024_le: "k \<le> 5 \<Longrightarrow> (1024::nat) ^ k \<le> 2 ^ 53"
proof -
  assume "k \<le> 5"
  then have "(1024::nat) ^ k \<le> 1024 ^ 5" by (intro power_increasing) simp_all
  also have "\<dots> \<le> 2 ^ 53" by simp
  finally show ?thesis .
qed

lemma tier_of_double:
  assumes "k \<le> 5"
  shows "1024 ^ k \<le> nearest_double a \<longleftrightarrow> 1024 ^ k \<le> a"
  using nearest_double_cmp [OF pow1024_le [OF assms], of a] by simp

lemma bytes_to_human_InrD:
  assumes "bytes_to_human n = Inr s"
  shows "\<exists>v i. py_float n = Inr v \<and> i \<le> 5 \<and> human_loop v 0 = (v / 1024 ^ i, i)
           \<and> s = format_1f (v / 1024 ^ i) @ units ! i"
proof -
  from assms obtain v where v: "py_float n = Inr v"
    by (auto simp: bytes_to_human_def human_parts_def split: sum.splits)
  from human_loop_result [of v] obtain i where i: "i \<le> 5" "human_loop v 0 = (v / 1024 ^ i, i)"
    by blast
  with assms v have "s = format_1f (v / 1024 ^ i) @ units ! i"
    by (simp add: bytes_to_human_def human_parts_def)
  with v i show ?thesis by blast
qed

lemma bytes_to_human_exact:
  assumes "0 \<le> n" and "n < 2 ^ 53"
  shows "bytes_to_human n
         = (case human_loop (of_int n) 0 of (val, i) \<Rightarrow> Inr (format_1f val @ units ! i))"
proof -
  from assms have "nat \<bar>n\<bar> < 2 ^ 53" by (simp add: nat_less_iff)
  then have "nearest_double (nat \<bar>n\<bar>) = of_nat (nat \<bar>n\<bar>)" by (rule nearest_double_exact)
  with assms have e: "nearest_double (nat \<bar>n\<bar>) = of_int n" by simp
  from assms have "(of_int n :: rat) < of_int (2 ^ 1024)" by (simp only: of_int_less_iff) simp
  then have "\<not> (2 ^ 1024 \<le> (of_int n :: rat))" by simp
  with assms e show ?thesis
    by (simp add: bytes_to_human_def human_parts_def py_float_def Let_def)
qed


subsection \<open>The largest convertible integer\<close>

lemma threshold_nat: "(2::nat) ^ 1024 - 2 ^ 970 = (2 ^ 54 - 1) * 2 ^ 970"
proof -
  have "(2::nat) ^ 1024 = 2 ^ 54 * 2 ^ 970" by (simp flip: power_add)
  then show ?thesis by (simp add: diff_mult_distrib)
qed

lemma threshold_rat: "(of_nat (2 ^ 1024 - 2 ^ 970) :: rat) / 2 ^ 971 = of_int (2 ^ 53 - 1) + 1 / 2"
proof -
  have "(of_nat ((2 ^ 54 - 1) * 2 ^ 970) :: rat) = (2 ^ 54 - 1) * 2 ^ 970"
    by (simp only: of_nat_mult of_nat_power of_nat_numeral of_nat_diff of_nat_1) simp
  moreover have "(2::rat) ^ 971 = 2 * 2 ^ 970" by (simp flip: power_Suc)
  ultimately have "(of_nat (2 ^ 1024 - 2 ^ 970) :: rat) / 2 ^ 971 = (2 ^ 54 - 1) * 2 ^ 970 / (2 * 2 ^ 970)"
    by (simp only: threshold_nat)
  also have "\<dots> = (2 ^ 54 - 1) / 2" by simp
  also have "\<dots> = of_int (2 ^ 53 - 1) + 1 / 2" by simp
  finally show ?thesis .
qed

lemma bit_length_threshold: "bit_length (2 ^ 1024 - 2 ^ 970) = 1024"
proof -
  have "(2::nat) ^ 1023 \<le> 2 ^ 1024 - 2 ^ 970" by simp
  moreover have "(2::nat) ^ 1024 - 2 ^ 970 < 2 ^ Suc 1023" by simp
  ultimately have "bit_length (2 ^ 1024 - 2 ^ 970) = Suc 1023" by (rule bit_length_eq)
  then show ?thesis by simp
qed

lemma nearest_double_threshold: "nearest_double (2 ^ 1024 - 2 ^ 970) = 2 ^ 1024"
proof -
  have "odd ((2::int) ^ 53 - 1)" by simp
  then have "round_half_even (of_int (2 ^ 53 - 1) + 1 / 2) = (2 ^ 53 - 1) + 1"
    by (rule round_half_even_tie_odd)
  then have r: "round_half_even (of_nat (2 ^ 1024 - 2 ^ 970) / 2 ^ 971) = 2 ^ 53"
    by (simp only: threshold_rat)
  have e: "bit_length (2 ^ 1024 - 2 ^ 970) - 53 = 971"
    by (simp only: bit_length_threshold)
  have "nearest_double (2 ^ 1024 - 2 ^ 970)
        = of_int (round_half_even (of_nat (2 ^ 1024 - 2 ^ 970) / 2 ^ 971)) * 2 ^ 971"
    by (simp only: nearest_double_def Let_def e)
  also have "\<dots> = of_int (2 ^ 53) * 2 ^ 971" by (simp only: r)
  also have "\<dots> = 2 ^ 1024" by simp
  finally show ?thesis .
qed

lemma nearest_double_below_threshold:
  assumes "a < 2 ^ 1024 - 2 ^ 970"
  shows "nearest_double a < 2 ^ 1024"
proof (cases "bit_length a \<le> 1023")
  case True
  have "nearest_double a \<le> 2 ^ bit_length a" by (rule nearest_double_upper)
  also have "(2::rat) ^ bit_length a \<le> 2 ^ 1023"
    using True by (intro power_increasing) simp_all
  also have "(2::rat) ^ 1023 < 2 ^ 1024" by simp
  finally show ?thesis .
next
  case False
  from assms have "a < 2 ^ 1024" by simp
  then have "bit_length a \<le> 1024" by (rule bit_length_le)
  with False have bl: "bit_length a = 1024" by simp
  let ?x = "(of_nat a :: rat) / 2 ^ 971"
  from assms have "(of_nat a :: rat) < of_nat (2 ^ 1024 - 2 ^ 970)" by (simp only: of_nat_less_iff)
  then have "?x < of_nat (2 ^ 1024 - 2 ^ 970) / 2 ^ 971" by (simp add: divide_strict_right_mono)
  then have "?x < of_int (2 ^ 53 - 1) + 1 / 2" by (simp only: threshold_rat)
  with round_half_even_upper [of ?x]
  have "(of_int (round_half_even ?x) :: rat) < of_int (2 ^ 53 - 1) + 1" by linarith
  then have "(of_int (round_half_even ?x) :: rat) < of_int (2 ^ 53)" by simp
  then have "round_half_even ?x < 2 ^ 53" by (simp only: of_int_less_iff)
  then have "round_half_even ?x \<le> 2 ^ 53 - 1" by simp
  then have "(of_int (round_half_even ?x) :: rat) \<le> of_int (2 ^ 53 - 1)"
    by (simp only: of_int_le_iff)
  then have "(of_int (round_half_even ?x) :: rat) * 2 ^ 971 \<le> of_int (2 ^ 53 - 1) * 2 ^ 971"
    by (simp add: mult_right_mono)
  also have "(of_int (2 ^ 53 - 1) :: rat) * 2 ^ 971 < 2 ^ 53 * 2 ^ 971" by simp
  also have "(2::rat) ^ 53 * 2 ^ 971 = 2 ^ 1024" by (simp flip: power_add)
  finally have "(of_int (round_half_even ?x) :: rat) * 2 ^ 971 < 2 ^ 1024" .
  moreover have "bit_length a - 53 = 971" by (simp only: bl)
  ultimately show ?thesis by (simp only: nearest_double_def Let_def)
qed

lemma nearest_double_overflow_iff:
  "2 ^ 1024 \<le> nearest_double a \<longleftrightarrow> 2 ^ 1024 - 2 ^ 970 \<le> a"
proof
  assume "2 ^ 1024 \<le> nearest_double a"
  with nearest_double_below_threshold [of a] show "2 ^ 1024 - 2 ^ 970 \<le> a"
    by (cases "a < 2 ^ 1024 - 2 ^ 970") simp_all
next
  assume "2 ^ 1024 - 2 ^ 970 \<le> a"
  from nearest_double_mono [OF this] show "2 ^ 1024 \<le> nearest_double a"
    by (simp only: nearest_double_threshold)
qed

subsection \<open>Evaluation on inputs\<close>

lemma round_half_even_divide:
  assumes "0 < q"
  shows "round_half_even (of_int p / of_int q)
         = (if 2 * (p mod q) < q then p div q
            else if q < 2 * (p mod q) then p div q + 1
            else if even (p div q) then p div q else p div q + 1)"
proof -
  have f: "\<lfloor>(of_int p :: rat) / of_int q\<rfloor> = p div q" by (rule floor_divide_of_int_eq)
  have "(of_int p :: rat) = of_int (q * (p div q) + p mod q)" by simp
  then have "(of_int p :: rat) = of_int q * of_int (p div q) + of_int (p mod q)"
    by (simp only: of_int_add of_int_mult)
  with assms have d: "(of_int p :: rat) / of_int q - of_int (p div q) = of_int (p mod q) / of_int q"
    by (simp add: field_simps)
  from assms have 1: "(of_int (p mod q) :: rat) / of_int q < 1 / 2 \<longleftrightarrow> 2 * (p mod q) < q"
  proof -
    have "(of_int (p mod q) :: rat) / of_int q < 1 / 2 \<longleftrightarrow> (of_int (2 * (p mod q)) :: rat) < of_int q"
      using assms by (simp add: field_simps)
    then show ?thesis by (simp only: of_int_less_iff)
  qed
  from assms have 2: "1 / 2 < (of_int (p mod q) :: rat) / of_int q \<longleftrightarrow> q < 2 * (p mod q)"
  proof -
    have "1 / 2 < (of_int (p mod q) :: rat) / of_int q \<longleftrightarrow> (of_int q :: rat) < of_int (2 * (p mod q))"
      using assms by (simp add: field_simps)
    then show ?thesis by (simp only: of_int_less_iff)
  qed
  show ?thesis
    unfolding round_half_even_def Let_def f d 1 2 ..
qed

lemma round_half_even_numeral_divide:
  "round_half_even (numeral p / numeral q)
   = (if 2 * (numeral p mod numeral q) < (numeral q :: int) then numeral p div numeral q
      else if numeral q < 2 * (numeral p mod numeral q :: int) then numeral p div numeral q + 1
      else if even (numeral p div numeral q :: int) then numeral p div numeral q
      else numeral p div numeral q + 1)"
  using round_half_even_divide [of "numeral q" "numeral p"] by simp

lemma round_half_even_numeral: "round_half_even (numeral p) = numeral p"
  using round_half_even_of_int [of "numeral p"] by simp

lemmas format_defs = format_1f_def tenths_def round_half_even_numeral_divide
  round_half_even_numeral dec_large dec_small digit_def units_def str_def

lemma bytes_to_human_1023: "bytes_to_human 1023 = Inr (str ''1023.0B'')"
  using bytes_to_human_exact [of 1023] by (simp add: human_loop_stop format_defs)

lemma bytes_to_human_1024: "bytes_to_human 1024 = Inr (str ''1.0KB'')"
  using bytes_to_human_exact [of 1024] by (simp add: human_loop_stop human_loop_step format_defs)

lemma bytes_to_human_1048575: "bytes_to_human 1048575 = Inr (str ''1024.0KB'')"
  using bytes_to_human_exact [of 1048575]
  by (simp add: human_loop_stop human_loop_step format_defs)

lemma bytes_to_human_1048576: "bytes_to_human 1048576 = Inr (str ''1.0MB'')"
  using bytes_to_human_exact [of 1048576]
  by (simp add: human_loop_stop human_loop_step format_defs)

subsection \<open>Monotonicity and tiers\<close>

lemma bytes_to_human_monotone:
  assumes "n1 \<le> n2" and "bytes_to_human n1 = Inr s1" and "bytes_to_human n2 = Inr s2"
    and "unit_part s1 = unit_part s2"
  shows "read_1f (numeric_part s1) \<le> read_1f (numeric_part s2)"
proof -
  from bytes_to_human_InrD [OF assms(2)] obtain v1 i1 where
    1: "py_float n1 = Inr v1" "i1 \<le> 5" "s1 = format_1f (v1 / 1024 ^ i1) @ units ! i1" by blast
  from bytes_to_human_InrD [OF assms(3)] obtain v2 i2 where
    2: "py_float n2 = Inr v2" "i2 \<le> 5" "s2 = format_1f (v2 / 1024 ^ i2) @ units ! i2" by blast
  from 1 2 assms(4) have "units ! i1 = units ! i2" by (simp add: split_output)
  with 1 2 have i: "i1 = i2" by (simp add: units_nth_eq)
  from py_float_mono [OF 1(1) 2(1) assms(1)] have "v1 / 1024 ^ i2 \<le> v2 / 1024 ^ i2"
    by (simp add: divide_right_mono)
  then have "read_1f (format_1f (v1 / 1024 ^ i2)) \<le> read_1f (format_1f (v2 / 1024 ^ i2))"
    by (rule read_1f_format_1f_mono)
  with 1 2 i show ?thesis by (simp add: split_output)
qed



lemma tier_of_int:
  assumes "0 \<le> n" and "j \<le> 5"
  shows "1024 ^ j \<le> nearest_double (nat \<bar>n\<bar>) \<longleftrightarrow> 1024 ^ j \<le> n"
proof -
  from assms(1) have "int (1024 ^ j) \<le> n \<longleftrightarrow> 1024 ^ j \<le> nat \<bar>n\<bar>" by linarith
  moreover have "int (1024 ^ j) = 1024 ^ j" by simp
  ultimately have "(1024::nat) ^ j \<le> nat \<bar>n\<bar> \<longleftrightarrow> (1024::int) ^ j \<le> n" by simp
  with tier_of_double [OF assms(2), of "nat \<bar>n\<bar>"] show ?thesis by blast
qed


lemma bytes_to_human_tier:
  assumes "0 \<le> n" and "k \<le> 5" and "bytes_to_human n = Inr s"
  shows "unit_part s = units ! k \<longleftrightarrow> (k = 0 \<or> 1024 ^ k \<le> n) \<and> (k = 5 \<or> n < 1024 ^ Suc k)"
proof -
  let ?v = "nearest_double (nat \<bar>n\<bar>)"
  from bytes_to_human_InrD [OF assms(3)] obtain v i where
    v: "py_float n = Inr v" and i: "i \<le> 5" and h: "human_loop v 0 = (v / 1024 ^ i, i)"
    and s: "s = format_1f (v / 1024 ^ i) @ units ! i" by blast
  from py_float_cases [of n] v assms(1) have vv: "v = ?v" by auto
  have lt: "k = 5 \<or> ?v < 1024 ^ Suc k \<longleftrightarrow> k = 5 \<or> n < 1024 ^ Suc k"
  proof (cases "k = 5")
    case True
    then show ?thesis by blast
  next
    case False
    with assms(2) have "Suc k \<le> 5" by linarith
    from tier_of_int [OF assms(1) this] have "?v < 1024 ^ Suc k \<longleftrightarrow> n < 1024 ^ Suc k"
      by linarith
    then show ?thesis by blast
  qed
  from i assms(2) have "units ! i = units ! k \<longleftrightarrow> i = k" by (intro units_nth_eq) linarith+
  moreover from i have "unit_part s = units ! i" unfolding s by (intro split_output) linarith
  moreover from h have "snd (human_loop v 0) = i" by simp
  ultimately have "unit_part s = units ! k \<longleftrightarrow> snd (human_loop ?v 0) = k"
    unfolding vv by metis
  also have "\<dots> \<longleftrightarrow> (k = 0 \<or> 1024 ^ k \<le> ?v) \<and> (k = 5 \<or> ?v < 1024 ^ Suc k)"
    by (rule human_loop_index_iff [OF assms(2)])
  also have "\<dots> \<longleftrightarrow> (k = 0 \<or> 1024 ^ k \<le> n) \<and> (k = 5 \<or> n < 1024 ^ Suc k)"
    using tier_of_int [OF assms(1) assms(2)] lt by blast
  finally show ?thesis .
qed


text \<open>
  C9. The helper is monotonic within a unit tier: of two inputs \<open>n1 < n2\<close> whose outputs
  carry the same unit, the numeral printed for \<open>n1\<close> denotes at most the number printed
  for \<open>n2\<close> (the order is kept, not strictly: one decimal place prints 1024 and 1025 alike). The tier changes exactly at the powers of 1024: a non-negative \<open>n\<close> gets the
  \<open>k\<close>-th unit exactly when \<open>1024 ^ k \<le> n < 1024 ^ (k + 1)\<close> (no lower bound for the
  first unit, no upper bound for the last). And 1023, 1024 and 1048576 give \<^verbatim>\<open>1023.0B\<close>,
  \<^verbatim>\<open>1.0KB\<close> and \<^verbatim>\<open>1.0MB\<close>.
\<close>

theorem bytes_to_human_monotonic_tiers:
  "(n1 < n2 \<and> bytes_to_human n1 = Inr s1 \<and> bytes_to_human n2 = Inr s2
      \<and> unit_part s1 = unit_part s2
      \<longrightarrow> read_1f (numeric_part s1) \<le> read_1f (numeric_part s2))
   \<and> (0 \<le> n \<and> k < length units \<and> bytes_to_human n = Inr s
      \<longrightarrow> (unit_part s = units ! k
            \<longleftrightarrow> (k = 0 \<or> 1024 ^ k \<le> n) \<and> (k = 5 \<or> n < 1024 ^ Suc k)))
   \<and> bytes_to_human 1023 = Inr (str ''1023.0B'')
   \<and> bytes_to_human 1024 = Inr (str ''1.0KB'')
   \<and> bytes_to_human 1048576 = Inr (str ''1.0MB'')"
proof (intro conjI impI)
  assume "n1 < n2 \<and> bytes_to_human n1 = Inr s1 \<and> bytes_to_human n2 = Inr s2
      \<and> unit_part s1 = unit_part s2"
  then show "read_1f (numeric_part s1) \<le> read_1f (numeric_part s2)"
    using bytes_to_human_monotone [of n1 n2 s1 s2] by linarith
next
  assume a: "0 \<le> n \<and> k < length units \<and> bytes_to_human n = Inr s"
  then have "k \<le> 5" by simp
  with a show "unit_part s = units ! k
            \<longleftrightarrow> (k = 0 \<or> 1024 ^ k \<le> n) \<and> (k = 5 \<or> n < 1024 ^ Suc k)"
    by (intro bytes_to_human_tier) blast+
qed (rule bytes_to_human_1023 bytes_to_human_1024 bytes_to_human_1048576)+

theorem bytes_to_human_monotonic_tiers_witness:
  "(1024::int) < 1048575
   \<and> bytes_to_human 1024 = Inr (str ''1.0KB'')
   \<and> bytes_to_human 1048575 = Inr (str ''1024.0KB'')
   \<and> unit_part (str ''1.0KB'') = unit_part (str ''1024.0KB'')
   \<and> read_1f (numeric_part (str ''1.0KB'')) \<le> read_1f (numeric_part (str ''1024.0KB''))
   \<and> (unit_part (str ''1.0KB'') = units ! 1 \<longleftrightarrow> (1024::int) ^ 1 \<le> 1024 \<and> (1024::int) < 1024 ^ Suc 1)"
proof -
  have u: "unit_part (str ''1.0KB'') = unit_part (str ''1024.0KB'')"
    by (simp add: unit_part_def str_def is_numeric_def isdigit_def)
  from bytes_to_human_monotonic_tiers
    [of 1024 1048575 "str ''1.0KB''" "str ''1024.0KB''" 1024 1 "str ''1.0KB''"]
    bytes_to_human_1024 bytes_to_human_1048575 u
  show ?thesis by simp
qed


subsection \<open>Results and overflow\<close>

lemma units_5: "units ! 5 = str ''PB''"
  by (simp add: units_def)

lemma bytes_to_human_overflow:
  assumes "2 ^ 1024 \<le> nearest_double (nat \<bar>n\<bar>)"
  shows "bytes_to_human n = Inl (OverflowError (str ''int too large to convert to float''))"
  using py_float_cases [of n] assms by (auto simp: bytes_to_human_def human_parts_def)

lemma threshold_int:
  assumes "0 \<le> n"
  shows "2 ^ 1024 - 2 ^ 970 \<le> nat \<bar>n\<bar> \<longleftrightarrow> 2 ^ 1024 - 2 ^ 970 \<le> n"
proof -
  have "int (2 ^ 1024 - 2 ^ 970) = 2 ^ 1024 - 2 ^ 970" by (simp add: of_nat_diff)
  moreover from assms have "2 ^ 1024 - 2 ^ 970 \<le> nat \<bar>n\<bar> \<longleftrightarrow> int (2 ^ 1024 - 2 ^ 970) \<le> n"
    by linarith
  ultimately show ?thesis by (simp only:)
qed

lemma bytes_to_human_returns:
  assumes "0 \<le> n" and "nearest_double (nat \<bar>n\<bar>) < 2 ^ 1024"
  shows "\<exists>val i. bytes_to_human n = Inr (format_1f val @ units ! i) \<and> i < length units
           \<and> unit_part (format_1f val @ units ! i) = units ! i
           \<and> (1024 ^ 5 \<le> n \<longrightarrow> units ! i = str ''PB'')"
proof -
  let ?v = "nearest_double (nat \<bar>n\<bar>)"
  from py_float_cases [of n] assms have v: "py_float n = Inr ?v" by auto
  from human_loop_result [of ?v] obtain i where i: "i \<le> 5"
    and h: "human_loop ?v 0 = (?v / 1024 ^ i, i)" by blast
  from v h have b: "bytes_to_human n = Inr (format_1f (?v / 1024 ^ i) @ units ! i)"
    by (simp add: bytes_to_human_def human_parts_def)
  from i have u: "unit_part (format_1f (?v / 1024 ^ i) @ units ! i) = units ! i"
    by (intro split_output) linarith
  have "units ! i = str ''PB''" if "1024 ^ 5 \<le> n"
  proof -
    from that tier_of_int [OF assms(1), of 5] have "1024 ^ 5 \<le> ?v" by simp
    with human_loop_index_iff [of 5 ?v] have "snd (human_loop ?v 0) = 5" by simp
    with h have "i = 5" by simp
    then show ?thesis by (simp only: units_5)
  qed
  moreover from i have "i < length units" by simp
  ultimately show ?thesis using b u by blast
qed

text \<open>
  C10 (amended). For a non-negative \<open>n\<close> below \<open>2 ^ 1024 - 2 ^ 970\<close>, the integers that
  \<^verbatim>\<open>float(n)\<close> converts, the helper returns a numeral followed by one of the six units,
  and by \<^verbatim>\<open>PB\<close> from \<open>1024 ^ 5\<close> on. From \<open>2 ^ 1024 - 2 ^ 970\<close> on it raises
  \<^verbatim>\<open>OverflowError\<close>.
\<close>

theorem bytes_to_human_returns_below_overflow:
  assumes "0 \<le> n"
  shows "(n < 2 ^ 1024 - 2 ^ 970 \<longrightarrow>
            (\<exists>val i. bytes_to_human n = Inr (format_1f val @ units ! i) \<and> i < length units
               \<and> unit_part (format_1f val @ units ! i) = units ! i
               \<and> (1024 ^ 5 \<le> n \<longrightarrow> units ! i = str ''PB'')))
         \<and> (2 ^ 1024 - 2 ^ 970 \<le> n \<longrightarrow>
            bytes_to_human n = Inl (OverflowError (str ''int too large to convert to float'')))"
proof (intro conjI impI)
  assume "n < 2 ^ 1024 - 2 ^ 970"
  then have "\<not> 2 ^ 1024 - 2 ^ 970 \<le> n" by (simp only: not_le)
  with threshold_int [OF assms] have "\<not> 2 ^ 1024 - 2 ^ 970 \<le> nat \<bar>n\<bar>" by blast
  with nearest_double_overflow_iff [of "nat \<bar>n\<bar>"]
  have "\<not> 2 ^ 1024 \<le> nearest_double (nat \<bar>n\<bar>)" by blast
  then have "nearest_double (nat \<bar>n\<bar>) < 2 ^ 1024" by (rule not_le_imp_less)
  with assms show "\<exists>val i. bytes_to_human n = Inr (format_1f val @ units ! i) \<and> i < length units
               \<and> unit_part (format_1f val @ units ! i) = units ! i
               \<and> (1024 ^ 5 \<le> n \<longrightarrow> units ! i = str ''PB'')"
    by (rule bytes_to_human_returns)
next
  assume "2 ^ 1024 - 2 ^ 970 \<le> n"
  with threshold_int [OF assms] have "2 ^ 1024 - 2 ^ 970 \<le> nat \<bar>n\<bar>" by blast
  with nearest_double_overflow_iff [of "nat \<bar>n\<bar>"]
  have "2 ^ 1024 \<le> nearest_double (nat \<bar>n\<bar>)" by blast
  then show "bytes_to_human n = Inl (OverflowError (str ''int too large to convert to float''))"
    by (rule bytes_to_human_overflow)
qed


theorem bytes_to_human_returns_below_overflow_witness:
  "(0::int) \<le> 1024 ^ 5 \<and> (1024::int) ^ 5 < 2 ^ 1024 - 2 ^ 970
   \<and> (\<exists>val i. bytes_to_human (1024 ^ 5) = Inr (format_1f val @ units ! i)
          \<and> units ! i = str ''PB'')"
proof -
  have 0: "(0::int) \<le> 1024 ^ 5" by simp
  have 1: "(1024::int) ^ 5 < 2 ^ 1024 - 2 ^ 970" by simp
  from bytes_to_human_returns_below_overflow [OF 0] 0 1 show ?thesis by blast
qed

text \<open>
  C10 as stated fails: \<open>2 ^ 1024\<close> is a non-negative integer, and \<^verbatim>\<open>float(n)\<close> raises
  for it.
\<close>

theorem bytes_to_human_overflow_counterexample:
  "(0::int) \<le> 2 ^ 1024
   \<and> bytes_to_human (2 ^ 1024) = Inl (OverflowError (str ''int too large to convert to float''))"
proof -
  have "nat \<bar>(2::int) ^ 1024\<bar> = 2 ^ 1024" by (simp add: nat_power_eq)
  moreover have "2 ^ 1024 \<le> nearest_double (2 ^ 1024)"
    by (rule nearest_double_ge_pow2) simp
  ultimately have "2 ^ 1024 \<le> nearest_double (nat \<bar>(2::int) ^ 1024\<bar>)" by (simp only:)
  then have "bytes_to_human (2 ^ 1024)
             = Inl (OverflowError (str ''int too large to convert to float''))"
    by (rule bytes_to_human_overflow)
  then show ?thesis by simp
qed

end
